theory Spec2Isabelle
  imports Main "HOL-Library.Word"
begin

unbundle bit_operations_syntax

section \<open>JavaScript strings\<close>

text \<open>
  A JavaScript string is a sequence of UTF-16 code units. String literals of the source
  are written with \<open>js\<close>, which maps every ASCII character to its code unit.
\<close>

type_synonym jschar = "16 word"
type_synonym jsstring = "jschar list"

definition jc :: "char \<Rightarrow> jschar" where
  "jc c = of_nat (of_char c)"

definition js :: "string \<Rightarrow> jsstring" where
  "js s = map jc s"

text \<open>The regular-expression classes the source uses: \<open>\d\<close> is \<open>[0-9]\<close>, and
  \<open>\s\<close> is the ECMAScript white space and line terminator set.\<close>

definition is_digit :: "jschar \<Rightarrow> bool" where
  "is_digit c = (0x30 \<le> c \<and> c \<le> 0x39)"

definition is_space :: "jschar \<Rightarrow> bool" where
  "is_space c =
     ((0x09 \<le> c \<and> c \<le> 0x0D) \<or> c = 0x20 \<or> c = 0xA0 \<or> c = 0x1680 \<or>
      (0x2000 \<le> c \<and> c \<le> 0x200A) \<or> c = 0x2028 \<or> c = 0x2029 \<or> c = 0x202F \<or>
      c = 0x205F \<or> c = 0x3000 \<or> c = 0xFEFF)"

text \<open>\<open>/^\d{lo,hi}$/.test(s)\<close>: the whole string is between \<open>lo\<close> and \<open>hi\<close> digits.\<close>

definition digits_between :: "nat \<Rightarrow> nat \<Rightarrow> jsstring \<Rightarrow> bool" where
  "digits_between lo hi s = (lo \<le> length s \<and> length s \<le> hi \<and> list_all is_digit s)"

text \<open>\<open>parseInt(c)\<close> and \<open>Number(c)\<close> of a one-character string. Both are only reached
  behind a \<open>\d\<close> test in the source, where they give the digit's value.\<close>

definition digit_value :: "jschar \<Rightarrow> int" where
  "digit_value c = int (unat c) - 48"

text \<open>A prefix pattern \<open>/^c1c2...cn/\<close> whose items are character ranges: \<open>lit\<close> a single
  character, \<open>rng\<close> a class \<open>[a-b]\<close>.\<close>

type_synonym char_class = "char \<times> char"

definition lit :: "char \<Rightarrow> char_class" where
  "lit c = (c, c)"

definition rng :: "char \<Rightarrow> char \<Rightarrow> char_class" where
  "rng a b = (a, b)"

definition in_class :: "char_class \<Rightarrow> jschar \<Rightarrow> bool" where
  "in_class r c = (jc (fst r) \<le> c \<and> c \<le> jc (snd r))"

fun re_prefix :: "char_class list \<Rightarrow> jsstring \<Rightarrow> bool" where
  "re_prefix [] s = True"
| "re_prefix (r # rs) [] = False"
| "re_prefix (r # rs) (c # cs) = (in_class r c \<and> re_prefix rs cs)"

section \<open>components/FundingModal.tsx: the account-number and routing-number validators\<close>

datatype fundingType = Card | Bank

text \<open>A react-hook-form validator returns \<open>true\<close> or the message of the rejection.\<close>

datatype validate_result = Accept | Reject string

text \<open>\<open>value.replace(/[\s-]/g, '')\<close>\<close>

definition strip_separators :: "jsstring \<Rightarrow> jsstring" where
  "strip_separators v = filter (\<lambda>c. \<not> (is_space c \<or> c = jc CHR ''-'')) v"

text \<open>The Luhn loop \<open>for (let i = cleaned.length - 1; i >= 0; i--)\<close>. The first argument
  counts the characters still to visit: the loop index is one less. The source's
  \<open>sum\<close> is \<open>acc\<close> here.\<close>

fun luhn_loop :: "nat \<Rightarrow> jsstring \<Rightarrow> int \<Rightarrow> bool \<Rightarrow> int" where
  "luhn_loop 0 cleaned acc isEven = acc"
| "luhn_loop (Suc i) cleaned acc isEven =
     (let digit = digit_value (cleaned ! i);
          digit = (if isEven
                   then (let doubled = digit * 2 in if doubled > 9 then doubled - 9 else doubled)
                   else digit)
      in luhn_loop i cleaned (acc + digit) (\<not> isEven))"

definition validFormat :: "fundingType \<Rightarrow> jsstring \<Rightarrow> validate_result" where
  "validFormat fundingType v =
     (if fundingType = Card then
        (let cleaned = strip_separators v in
         if \<not> digits_between 13 19 cleaned then Reject ''Card number must be 13-19 digits''
         else if luhn_loop (length cleaned) cleaned 0 False mod 10 \<noteq> 0
           then Reject ''Invalid card number''
         else Accept)
      else if \<not> digits_between 4 17 v then Reject ''Account number must be 4-17 digits''
      else Accept)"

definition validCardType :: "fundingType \<Rightarrow> jsstring \<Rightarrow> validate_result" where
  "validCardType fundingType v =
     (if fundingType \<noteq> Card then Accept
      else let cleaned = strip_separators v in
        if re_prefix [lit CHR ''4''] cleaned then Accept
        else if re_prefix [lit CHR ''5'', rng CHR ''1'' CHR ''5''] cleaned then Accept
        else if re_prefix [lit CHR ''2'', lit CHR ''2'', rng CHR ''2'' CHR ''9'', rng CHR ''0'' CHR ''9''] cleaned
              \<or> re_prefix [lit CHR ''2'', rng CHR ''3'' CHR ''6'', rng CHR ''0'' CHR ''9'', rng CHR ''0'' CHR ''9''] cleaned
              \<or> re_prefix [lit CHR ''2'', lit CHR ''7'', rng CHR ''0'' CHR ''1'', rng CHR ''0'' CHR ''9''] cleaned
              \<or> re_prefix [lit CHR ''2'', lit CHR ''7'', lit CHR ''2'', lit CHR ''0''] cleaned then Accept
        else if re_prefix [lit CHR ''3'', lit CHR ''4''] cleaned
              \<or> re_prefix [lit CHR ''3'', lit CHR ''7''] cleaned then Accept
        else if re_prefix [lit CHR ''6'', lit CHR ''0'', lit CHR ''1'', lit CHR ''1''] cleaned then Accept
        else if re_prefix [lit CHR ''6'', lit CHR ''2'', lit CHR ''2'', lit CHR ''1'', lit CHR ''2'', rng CHR ''6'' CHR ''9''] cleaned then Accept
        else if re_prefix [lit CHR ''6'', lit CHR ''2'', lit CHR ''2'', lit CHR ''9'', rng CHR ''0'' CHR ''1'', rng CHR ''0'' CHR ''9''] cleaned then Accept
        else if re_prefix [lit CHR ''6'', lit CHR ''2'', lit CHR ''2'', rng CHR ''2'' CHR ''8'', rng CHR ''0'' CHR ''9'', rng CHR ''0'' CHR ''9''] cleaned then Accept
        else if re_prefix [lit CHR ''6'', lit CHR ''2'', lit CHR ''2'', lit CHR ''9'', lit CHR ''2'', rng CHR ''0'' CHR ''5''] cleaned then Accept
        else if re_prefix [lit CHR ''6'', lit CHR ''4'', rng CHR ''4'' CHR ''9''] cleaned then Accept
        else if re_prefix [lit CHR ''6'', lit CHR ''5''] cleaned then Accept
        else Reject ''Card type not supported. We accept Visa, Mastercard, Amex, and Discover'')"

text \<open>The routing number is an optional form field (\<open>routingNumber?: string\<close>): \<open>None\<close>
  is \<open>undefined\<close>, and \<open>!value\<close> holds of \<open>undefined\<close> and of the empty string.\<close>

definition validRoutingNumber :: "fundingType \<Rightarrow> jsstring option \<Rightarrow> validate_result" where
  "validRoutingNumber fundingType v =
     (if fundingType \<noteq> Bank then Accept
      else case v of
        None \<Rightarrow> Reject ''Routing number is required for bank transfers''
      | Some s \<Rightarrow>
          if s = [] then Reject ''Routing number is required for bank transfers''
          else if \<not> digits_between 9 9 s then Reject ''Routing number must be exactly 9 digits''
          else
            (let digits = map digit_value s;
                 checksum = 3 * (digits ! 0 + digits ! 3 + digits ! 6)
                          + 7 * (digits ! 1 + digits ! 4 + digits ! 7)
                          + 1 * (digits ! 2 + digits ! 5 + digits ! 8)
             in if checksum mod 10 \<noteq> 0 then Reject ''Invalid routing number'' else Accept))"

section \<open>Node.js primitives used by utils/encryption.ts\<close>

type_synonym byte = "8 word"

subsection \<open>Hexadecimal: \<open>buf.toString('hex')\<close> and \<open>Buffer.from(s, 'hex')\<close>\<close>

definition hex_digit :: "nat \<Rightarrow> jschar" where
  "hex_digit n = (if n < 10 then of_nat (48 + n) else of_nat (87 + n))"

definition to_hex :: "byte list \<Rightarrow> jsstring" where
  "to_hex bs = concat (map (\<lambda>b. [hex_digit (unat b div 16), hex_digit (unat b mod 16)]) bs)"

text \<open>The decoder looks a character up by its low eight bits only: it narrows each
  UTF-16 code unit to a byte before it tests it, so that U+0130 is read as \<open>0\<close> (0x30)
  and U+0141 as \<open>A\<close> (0x41).\<close>

definition hex_value :: "jschar \<Rightarrow> nat option" where
  "hex_value c =
     (let x = (ucast c :: byte) in
      if 0x30 \<le> x \<and> x \<le> 0x39 then Some (unat x - 48)
      else if 0x61 \<le> x \<and> x \<le> 0x66 then Some (unat x - 87)
      else if 0x41 \<le> x \<and> x \<le> 0x46 then Some (unat x - 55)
      else None)"

text \<open>Decoding is lenient: it reads pairs of hexadecimal digits and stops at the first
  pair that is not one, or at a trailing single character.\<close>

fun from_hex :: "jsstring \<Rightarrow> byte list" where
  "from_hex (a # b # rest) =
     (case hex_value a of
        None \<Rightarrow> []
      | Some h \<Rightarrow> (case hex_value b of
                     None \<Rightarrow> []
                   | Some l \<Rightarrow> of_nat (16 * h + l) # from_hex rest))"
| "from_hex [a] = []"
| "from_hex [] = []"

subsection \<open>\<open>s.split(c)\<close> and \<open>s.slice(-n)\<close>\<close>

definition colon :: jschar where
  "colon = jc CHR '':''"

text \<open>The result of \<open>split\<close> is never empty: a string without the separator gives
  the one-element list of itself.\<close>

fun split_on :: "jschar \<Rightarrow> jsstring \<Rightarrow> jsstring list" where
  "split_on sep [] = [[]]"
| "split_on sep (c # cs) =
     (if c = sep then [] # split_on sep cs
      else (case split_on sep cs of
              [] \<Rightarrow> [[c]]
            | part # parts \<Rightarrow> (c # part) # parts))"

definition slice_last :: "nat \<Rightarrow> jsstring \<Rightarrow> jsstring" where
  "slice_last n s = drop (length s - n) s"

subsection \<open>The \<open>'utf8'\<close> encoding of a string, and the decoding of bytes\<close>

definition is_high_surrogate :: "jschar \<Rightarrow> bool" where
  "is_high_surrogate u = (0xD800 \<le> u \<and> u \<le> 0xDBFF)"

definition is_low_surrogate :: "jschar \<Rightarrow> bool" where
  "is_low_surrogate u = (0xDC00 \<le> u \<and> u \<le> 0xDFFF)"

definition utf8_of_cp :: "nat \<Rightarrow> byte list" where
  "utf8_of_cp cp =
     (if cp < 0x80 then [of_nat cp]
      else if cp < 0x800 then [of_nat (0xC0 + cp div 64), of_nat (0x80 + cp mod 64)]
      else if cp < 0x10000 then
        [of_nat (0xE0 + cp div 4096), of_nat (0x80 + cp div 64 mod 64), of_nat (0x80 + cp mod 64)]
      else
        [of_nat (0xF0 + cp div 262144), of_nat (0x80 + cp div 4096 mod 64),
         of_nat (0x80 + cp div 64 mod 64), of_nat (0x80 + cp mod 64)])"

text \<open>A surrogate pair encodes one code point; a surrogate that is not part of a pair is
  written as U+FFFD, the replacement character.\<close>

fun utf8_encode :: "jsstring \<Rightarrow> byte list" where
  "utf8_encode [] = []"
| "utf8_encode [u] =
     (if is_high_surrogate u \<or> is_low_surrogate u then utf8_of_cp 0xFFFD
      else utf8_of_cp (unat u))"
| "utf8_encode (u # v # rest) =
     (if is_high_surrogate u \<and> is_low_surrogate v
        then utf8_of_cp (0x10000 + (unat u - 0xD800) * 1024 + (unat v - 0xDC00)) @ utf8_encode rest
      else if is_high_surrogate u \<or> is_low_surrogate u
        then utf8_of_cp 0xFFFD @ utf8_encode (v # rest)
      else utf8_of_cp (unat u) @ utf8_encode (v # rest))"

definition utf16_of_cp :: "nat \<Rightarrow> jsstring" where
  "utf16_of_cp cp =
     (if cp < 0x10000 then [of_nat cp]
      else [of_nat (0xD800 + (cp - 0x10000) div 1024), of_nat (0xDC00 + (cp - 0x10000) mod 1024)])"

text \<open>The decoder keeps the number of continuation bytes still needed, the code point
  read so far and the range allowed for the next byte. A byte that cannot continue the
  sequence ends it with U+FFFD and is read again as the start of the next one.\<close>

function utf8_dec :: "nat \<Rightarrow> nat \<Rightarrow> nat \<Rightarrow> nat \<Rightarrow> byte list \<Rightarrow> jsstring" where
  "utf8_dec need cp lo hi [] = (if need = 0 then [] else [0xFFFD])"
| "utf8_dec need cp lo hi (b # bs) =
     (let x = unat b in
      if need = 0 then
        (if x < 0x80 then of_nat x # utf8_dec 0 0 0x80 0xBF bs
         else if 0xC2 \<le> x \<and> x \<le> 0xDF then utf8_dec 1 (x - 0xC0) 0x80 0xBF bs
         else if 0xE0 \<le> x \<and> x \<le> 0xEF then
           utf8_dec 2 (x - 0xE0) (if x = 0xE0 then 0xA0 else 0x80) (if x = 0xED then 0x9F else 0xBF) bs
         else if 0xF0 \<le> x \<and> x \<le> 0xF4 then
           utf8_dec 3 (x - 0xF0) (if x = 0xF0 then 0x90 else 0x80) (if x = 0xF4 then 0x8F else 0xBF) bs
         else 0xFFFD # utf8_dec 0 0 0x80 0xBF bs)
      else if x < lo \<or> hi < x then 0xFFFD # utf8_dec 0 0 0x80 0xBF (b # bs)
      else if need = 1 then utf16_of_cp (cp * 64 + (x - 0x80)) @ utf8_dec 0 0 0x80 0xBF bs
      else utf8_dec (need - 1) (cp * 64 + (x - 0x80)) 0x80 0xBF bs)"
  by pat_completeness auto
termination
  by (relation "measure (\<lambda>(need, cp, lo, hi, bs). 2 * length bs + (if need = 0 then 0 else 1))")
    auto

declare utf8_dec.simps [simp del]

definition utf8_decode :: "byte list \<Rightarrow> jsstring" where
  "utf8_decode bs = utf8_dec 0 0 0x80 0xBF bs"

text \<open>A string is well-formed UTF-16 when every surrogate code unit is half of a pair.\<close>

fun well_formed_utf16 :: "jsstring \<Rightarrow> bool" where
  "well_formed_utf16 [] = True"
| "well_formed_utf16 [u] = (\<not> is_high_surrogate u \<and> \<not> is_low_surrogate u)"
| "well_formed_utf16 (u # v # rest) =
     (if is_high_surrogate u then is_low_surrogate v \<and> well_formed_utf16 rest
      else \<not> is_low_surrogate u \<and> well_formed_utf16 (v # rest))"

subsection \<open>The cipher \<open>'aes-256-cbc'\<close>\<close>

text \<open>
  The AES block transformation under the process key \<open>ENCRYPTION_KEY\<close> is a parameter of
  the model: \<open>E\<close> encrypts one 16-byte block and \<open>D\<close> decrypts one. The mode of operation
  (cipher block chaining) and the padding (PKCS#7, as OpenSSL checks it) are written out.
\<close>

type_synonym block_fun = "byte list \<Rightarrow> byte list"

definition block_cipher :: "block_fun \<Rightarrow> block_fun \<Rightarrow> bool" where
  "block_cipher E D =
     (\<forall>b. length b = 16 \<longrightarrow> length (E b) = 16 \<and> length (D b) = 16 \<and> D (E b) = b)"

definition xor_bytes :: "byte list \<Rightarrow> byte list \<Rightarrow> byte list" where
  "xor_bytes a b = map2 (XOR) a b"

definition pkcs7_pad :: "byte list \<Rightarrow> byte list" where
  "pkcs7_pad m = (let n = 16 - length m mod 16 in m @ replicate n (of_nat n))"

definition pkcs7_unpad :: "byte list \<Rightarrow> byte list option" where
  "pkcs7_unpad m =
     (if m = [] then None
      else let n = unat (last m) in
        if n = 0 \<or> 16 < n then None
        else if drop (length m - n) m = replicate n (last m) then Some (take (length m - n) m)
        else None)"

function cbc_encrypt :: "block_fun \<Rightarrow> byte list \<Rightarrow> byte list \<Rightarrow> byte list" where
  "cbc_encrypt E prev m =
     (if m = [] then []
      else let c = E (xor_bytes prev (take 16 m)) in c @ cbc_encrypt E c (drop 16 m))"
  by pat_completeness auto
termination
  by (relation "measure (\<lambda>(E, prev, m). length m)") auto

function cbc_decrypt :: "block_fun \<Rightarrow> byte list \<Rightarrow> byte list \<Rightarrow> byte list" where
  "cbc_decrypt D prev c =
     (if c = [] then []
      else xor_bytes prev (D (take 16 c)) @ cbc_decrypt D (take 16 c) (drop 16 c))"
  by pat_completeness auto
termination
  by (relation "measure (\<lambda>(D, prev, c). length c)") auto

declare cbc_encrypt.simps [simp del] cbc_decrypt.simps [simp del]

datatype crypto_error =
    ERR_CRYPTO_INVALID_IV
  | ERR_INVALID_ARG_TYPE
  | ERR_INVALID_ARG_VALUE
  | WRONG_FINAL_BLOCK_LENGTH
  | BAD_DECRYPT

text \<open>\<open>createCipheriv(ALGORITHM, ENCRYPTION_KEY, iv)\<close> followed by \<open>update(data, 'utf8', 'hex')\<close>
  and \<open>final('hex')\<close>: the two outputs together are the hexadecimal form of the whole
  ciphertext.\<close>

definition cipher_hex :: "block_fun \<Rightarrow> byte list \<Rightarrow> jsstring \<Rightarrow> jsstring" where
  "cipher_hex E iv s = to_hex (cbc_encrypt E iv (pkcs7_pad (utf8_encode s)))"

text \<open>\<open>createDecipheriv(ALGORITHM, ENCRYPTION_KEY, iv)\<close> followed by \<open>update(data, 'hex', ...)\<close>
  and \<open>final(...)\<close>, before the output is decoded. The data is \<open>None\<close> when the source
  passes \<open>undefined\<close>. The initialization vector must be 16 bytes; the data must be a
  string, of even length when it is read as \<open>'hex'\<close>; the ciphertext must be a positive
  number of whole blocks; and the last block must end in valid padding.\<close>

definition decipher_bytes :: "block_fun \<Rightarrow> byte list \<Rightarrow> jsstring option \<Rightarrow> crypto_error + byte list" where
  "decipher_bytes D iv d =
     (if length iv \<noteq> 16 then Inl ERR_CRYPTO_INVALID_IV
      else case d of
        None \<Rightarrow> Inl ERR_INVALID_ARG_TYPE
      | Some encryptedText \<Rightarrow>
          if odd (length encryptedText) then Inl ERR_INVALID_ARG_VALUE
          else let ct = from_hex encryptedText in
            if ct = [] \<or> length ct mod 16 \<noteq> 0 then Inl WRONG_FINAL_BLOCK_LENGTH
            else case pkcs7_unpad (cbc_decrypt D iv ct) of
              None \<Rightarrow> Inl BAD_DECRYPT
            | Some m \<Rightarrow> Inr m)"

section \<open>utils/encryption.ts\<close>

text \<open>\<open>encryptSSN\<close>: the 16 bytes that \<open>crypto.randomBytes(16)\<close> returns are the argument
  \<open>iv\<close>.\<close>

definition encryptSSN :: "block_fun \<Rightarrow> byte list \<Rightarrow> jsstring \<Rightarrow> jsstring" where
  "encryptSSN E iv ssn =
     (let encrypted = cipher_hex E iv ssn
      in to_hex iv @ js '':'' @ encrypted)"

text \<open>\<open>parts[1]\<close> is \<open>undefined\<close> when the string has no separator.\<close>

definition decryptSSN_bytes :: "block_fun \<Rightarrow> jsstring \<Rightarrow> crypto_error + byte list" where
  "decryptSSN_bytes D encryptedSSN =
     (let parts = split_on colon encryptedSSN;
          iv = from_hex (parts ! 0);
          encryptedText = (if 1 < length parts then Some (parts ! 1) else None)
      in decipher_bytes D iv encryptedText)"

definition decryptSSN :: "block_fun \<Rightarrow> jsstring \<Rightarrow> crypto_error + jsstring" where
  "decryptSSN D encryptedSSN =
     (case decryptSSN_bytes D encryptedSSN of
        Inl e \<Rightarrow> Inl e
      | Inr m \<Rightarrow> Inr (utf8_decode m))"

definition maskSSN :: "block_fun \<Rightarrow> jsstring \<Rightarrow> crypto_error + jsstring" where
  "maskSSN D ssn =
     (if colon \<in> set ssn
      then (case decryptSSN D ssn of
              Inl e \<Rightarrow> Inl e
            | Inr decrypted \<Rightarrow> Inr (js ''***-**-'' @ slice_last 4 decrypted))
      else Inr (js ''***-**-'' @ slice_last 4 ssn))"

text \<open>A sample block cipher, used where a theorem is evaluated at a concrete input.\<close>

definition sample_E :: block_fun where
  "sample_E b = rev (map (\<lambda>x. x + 0x3D) b)"

definition sample_D :: block_fun where
  "sample_D b = map (\<lambda>x. x - 0x3D) (rev b)"

definition sample_iv :: "byte list" where
  "sample_iv = [0x00, 0x11, 0x22, 0x33, 0x44, 0x55, 0x66, 0x77,
                0x88, 0x99, 0xAA, 0xBB, 0xCC, 0xDD, 0xEE, 0xFF]"


section \<open>The date-of-birth checks: the server's \<open>dateOfBirth\<close> refinement and the signup form's validators\<close>

text \<open>
  The numbers the checks compute are years, months and days, or \<open>NaN\<close> when a date is
  invalid: a number is an integer or \<open>None\<close> for \<open>NaN\<close>. Every comparison with \<open>NaN\<close> is
  false.

  A date is \<open>Invalid Date\<close>, or a date with its fields in the local calendar: the year,
  the month (from 0), the day of the month, and the milliseconds since the start of the
  day. Two dates are compared by their time values, which is the order of these fields.
  \<open>new Date(date)\<close> and \<open>new Date()\<close> are the arguments \<open>dob\<close> (or \<open>selectedDate\<close>)
  and \<open>today\<close> of the checks.
\<close>

type_synonym jsnum = "int option"

definition num_sub :: "jsnum \<Rightarrow> jsnum \<Rightarrow> jsnum" where
  "num_sub a b = (case a of None \<Rightarrow> None | Some x \<Rightarrow> (case b of None \<Rightarrow> None | Some y \<Rightarrow> Some (x - y)))"

definition num_lt :: "jsnum \<Rightarrow> int \<Rightarrow> bool" where
  "num_lt a k = (case a of None \<Rightarrow> False | Some x \<Rightarrow> x < k)"

definition num_gt :: "jsnum \<Rightarrow> int \<Rightarrow> bool" where
  "num_gt a k = (case a of None \<Rightarrow> False | Some x \<Rightarrow> x > k)"

definition num_eq :: "jsnum \<Rightarrow> int \<Rightarrow> bool" where
  "num_eq a k = (case a of None \<Rightarrow> False | Some x \<Rightarrow> x = k)"

datatype jsdate = InvalidDate | Date int int int int

fun getFullYear :: "jsdate \<Rightarrow> jsnum" where
  "getFullYear InvalidDate = None"
| "getFullYear (Date y m d t) = Some y"

fun getMonth :: "jsdate \<Rightarrow> jsnum" where
  "getMonth InvalidDate = None"
| "getMonth (Date y m d t) = Some m"

fun getDate :: "jsdate \<Rightarrow> jsnum" where
  "getDate InvalidDate = None"
| "getDate (Date y m d t) = Some d"

fun date_gt :: "jsdate \<Rightarrow> jsdate \<Rightarrow> bool" where
  "date_gt (Date y m d t) (Date y' m' d' t') =
     (y > y' \<or> (y = y' \<and> (m > m' \<or> (m = m' \<and> (d > d' \<or> (d = d' \<and> t > t'))))))"
| "date_gt InvalidDate b = False"
| "date_gt a InvalidDate = False"

definition dateOfBirth_refine :: "jsdate \<Rightarrow> jsdate \<Rightarrow> bool" where
  "dateOfBirth_refine dob today =
     (if date_gt dob today then False
      else
        (let age = num_sub (getFullYear today) (getFullYear dob);
             monthDiff = num_sub (getMonth today) (getMonth dob);
             dayDiff = num_sub (getDate today) (getDate dob);
             exactAge = (if num_lt monthDiff 0 \<or> (num_eq monthDiff 0 \<and> num_lt dayDiff 0)
                         then num_sub age (Some 1) else age)
         in if num_lt exactAge 18 then False
            else if num_gt age 120 then False
            else True))"

definition notFuture :: "jsdate \<Rightarrow> jsdate \<Rightarrow> validate_result" where
  "notFuture selectedDate today =
     (if date_gt selectedDate today then Reject ''Date of birth cannot be in the future''
      else Accept)"

definition minimumAge :: "jsdate \<Rightarrow> jsdate \<Rightarrow> validate_result" where
  "minimumAge selectedDate today =
     (let age = num_sub (getFullYear today) (getFullYear selectedDate);
          monthDiff = num_sub (getMonth today) (getMonth selectedDate);
          dayDiff = num_sub (getDate today) (getDate selectedDate);
          exactAge = (if num_lt monthDiff 0 \<or> (num_eq monthDiff 0 \<and> num_lt dayDiff 0)
                      then num_sub age (Some 1) else age)
      in if num_lt exactAge 18
         then Reject ''You must be at least 18 years old to open an account''
         else Accept)"

definition reasonable :: "jsdate \<Rightarrow> jsdate \<Rightarrow> validate_result" where
  "reasonable selectedDate today =
     (let age = num_sub (getFullYear today) (getFullYear selectedDate)
      in if num_gt age 120 then Reject ''Please enter a valid date of birth'' else Accept)"

section \<open>The specification's reference definitions\<close>

text \<open>The Luhn sum as the specification words it: the digit at position \<open>pos\<close> counted
  from the right (the rightmost is 0) is doubled when \<open>pos\<close> is odd, 9 is subtracted from a
  doubled digit above 9, and the results are added up.\<close>

definition luhn_term :: "nat \<Rightarrow> int \<Rightarrow> int" where
  "luhn_term pos d = (if odd pos then (if 2 * d > 9 then 2 * d - 9 else 2 * d) else d)"

definition luhn_sum_spec :: "jsstring \<Rightarrow> int" where
  "luhn_sum_spec s = (\<Sum>j<length s. luhn_term (length s - 1 - j) (digit_value (s ! j)))"

text \<open>The brand table of the specification: a brand is read from the number that the
  first \<open>n\<close> digits spell.\<close>

datatype brand = Visa | Mastercard | Amex | Discover | Unknown

definition prefix_value :: "nat \<Rightarrow> jsstring \<Rightarrow> nat option" where
  "prefix_value n s =
     (if n \<le> length s \<and> list_all is_digit (take n s)
      then Some (foldl (\<lambda>a c. 10 * a + nat (digit_value c)) 0 (take n s)) else None)"

definition prefix_in :: "nat \<Rightarrow> nat \<Rightarrow> nat \<Rightarrow> jsstring \<Rightarrow> bool" where
  "prefix_in n lo hi s = (case prefix_value n s of None \<Rightarrow> False | Some p \<Rightarrow> lo \<le> p \<and> p \<le> hi)"

definition classifyCard_spec :: "jsstring \<Rightarrow> brand" where
  "classifyCard_spec s =
     (if prefix_in 1 4 4 s then Visa
      else if prefix_in 2 51 55 s \<or> prefix_in 4 2221 2720 s then Mastercard
      else if prefix_in 2 34 34 s \<or> prefix_in 2 37 37 s then Amex
      else if prefix_in 4 6011 6011 s \<or> prefix_in 6 622126 622925 s
              \<or> prefix_in 3 644 649 s \<or> prefix_in 2 65 65 s then Discover
      else Unknown)"

text \<open>The calendar age of the specification: the difference of the years, less one when
  the month and day of the reference date come before those of the birth date.\<close>

definition calendar_age :: "int \<Rightarrow> int \<Rightarrow> int \<Rightarrow> int \<Rightarrow> int \<Rightarrow> int \<Rightarrow> int" where
  "calendar_age by bm bd ty tm td =
     ty - by - (if tm < bm \<or> (tm = bm \<and> td < bd) then 1 else 0)"

text \<open>The day after a date, in the Gregorian calendar (months count from 0).\<close>

definition leap_year :: "int \<Rightarrow> bool" where
  "leap_year y = (y mod 4 = 0 \<and> (y mod 100 \<noteq> 0 \<or> y mod 400 = 0))"

definition days_in_month :: "int \<Rightarrow> int \<Rightarrow> int" where
  "days_in_month y m =
     (if m = 1 then (if leap_year y then 29 else 28)
      else if m = 3 \<or> m = 5 \<or> m = 8 \<or> m = 10 then 30 else 31)"

fun next_day :: "jsdate \<Rightarrow> jsdate" where
  "next_day InvalidDate = InvalidDate"
| "next_day (Date y m d t) =
     (if d < days_in_month y m then Date y m (d + 1) t
      else if m < 11 then Date y (m + 1) 1 t
      else Date (y + 1) 0 1 t)"

section \<open>Terms in which the stored strings are described\<close>

text \<open>The low eight bits of a code unit, which are all that the hexadecimal decoder reads.\<close>

definition low_byte :: "jschar \<Rightarrow> nat" where
  "low_byte c = unat c mod 256"

text \<open>A hexadecimal character: one whose low byte is a digit \<open>0\<close>-\<open>9\<close>, a letter \<open>A\<close>-\<open>F\<close> or a
  letter \<open>a\<close>-\<open>f\<close>. A string starts with a hexadecimal pair when its first two characters
  are hexadecimal.\<close>

definition hex_char :: "jschar \<Rightarrow> bool" where
  "hex_char c =
     (let x = low_byte c in (48 \<le> x \<and> x \<le> 57) \<or> (65 \<le> x \<and> x \<le> 70) \<or> (97 \<le> x \<and> x \<le> 102))"

definition starts_hex_pair :: "jsstring \<Rightarrow> bool" where
  "starts_hex_pair s = (case s of x # y # r \<Rightarrow> hex_char x \<and> hex_char y | _ \<Rightarrow> False)"

text \<open>Two characters are read alike when both or neither are the separator and their low
  bytes are equal, or are the upper-case and the lower-case form of one letter \<open>a\<close>-\<open>f\<close>.\<close>

definition fold_case :: "nat \<Rightarrow> nat" where
  "fold_case x = (if 65 \<le> x \<and> x \<le> 70 then x + 32 else x)"

definition reads_as :: "jschar \<Rightarrow> jschar \<Rightarrow> bool" where
  "reads_as x y = (fold_case (low_byte x) = fold_case (low_byte y) \<and> (x = colon) = (y = colon))"

section \<open>Properties of the validators of FundingModal.tsx\<close>

lemmas validator_eval =
  validFormat_def validCardType_def validRoutingNumber_def classifyCard_spec_def prefix_in_def
  prefix_value_def strip_separators_def digits_between_def is_digit_def is_space_def
  digit_value_def js_def jc_def Let_def lit_def rng_def in_class_def

subsection \<open>The Luhn loop computes the specified sum\<close>

lemma luhn_loop_sum:
  "k \<le> length c \<Longrightarrow> e = odd (length c - k) \<Longrightarrow>
   luhn_loop k c a e = a + (\<Sum>j<k. luhn_term (length c - 1 - j) (digit_value (c ! j)))"
proof (induction k arbitrary: a e)
  case 0
  then show ?case by simp
next
  case (Suc k)
  have pos: "length c - k = Suc (length c - Suc k)" using Suc.prems(1) by simp
  have flag: "(\<not> e) = odd (length c - k)" using Suc.prems(2) pos by simp
  have "luhn_loop (Suc k) c a e
        = luhn_loop k c (a + luhn_term (length c - 1 - k) (digit_value (c ! k))) (\<not> e)"
    using Suc.prems(2) by (simp add: luhn_term_def Let_def mult.commute)
  also have "\<dots> = a + luhn_term (length c - 1 - k) (digit_value (c ! k))
                 + (\<Sum>j<k. luhn_term (length c - 1 - j) (digit_value (c ! j)))"
    using Suc.prems(1) flag by (intro Suc.IH) simp_all
  finally show ?case by simp
qed

lemma luhn_loop_spec: "luhn_loop (length c) c 0 False = luhn_sum_spec c"
  by (simp add: luhn_loop_sum luhn_sum_spec_def)

text \<open>
  C7, as the code has it. The card branch of \<open>validFormat\<close> first removes white space and
  hyphens from its input. It accepts exactly when what is left is 13 to 19 ASCII digits
  whose Luhn sum (from the right, every second digit doubled, 9 subtracted from a doubled
  digit above 9) is divisible by 10. Anything else is rejected with a message, never by an
  exception. \<open>4532015112830366\<close> is accepted and \<open>4532015112830367\<close> is rejected.
\<close>

theorem validFormat_card_iff:
  "(validFormat Card v = Accept \<longleftrightarrow>
      13 \<le> length (strip_separators v) \<and> length (strip_separators v) \<le> 19 \<and>
      list_all is_digit (strip_separators v) \<and> luhn_sum_spec (strip_separators v) mod 10 = 0)
   \<and> validFormat Card (js ''4532015112830366'') = Accept
   \<and> validFormat Card (js ''4532015112830367'') = Reject ''Invalid card number''"
proof -
  have "validFormat Card v = Accept \<longleftrightarrow>
      13 \<le> length (strip_separators v) \<and> length (strip_separators v) \<le> 19 \<and>
      list_all is_digit (strip_separators v) \<and> luhn_sum_spec (strip_separators v) mod 10 = 0"
    by (auto simp add: validFormat_def Let_def digits_between_def luhn_loop_spec)
  moreover have "validFormat Card (js ''4532015112830366'') = Accept"
    by (simp add: validator_eval)
  moreover have "validFormat Card (js ''4532015112830367'') = Reject ''Invalid card number''"
    by (simp add: validator_eval)
  ultimately show ?thesis by blast
qed

text \<open>
  C7, as the claim states it, fails: an input with hyphens and a space between the digit
  groups contains characters that are not digits, and is accepted.
\<close>

theorem validFormat_accepts_separators:
  "validFormat Card (js ''4532-0151 1283-0366'') = Accept
   \<and> \<not> list_all is_digit (js ''4532-0151 1283-0366'')"
  by (simp add: validator_eval)

text \<open>
  C8. For a bank transfer, \<open>validRoutingNumber\<close> accepts a string exactly when it is 9
  ASCII digits \<open>d0 ... d8\<close> with \<open>3 * (d0 + d3 + d6) + 7 * (d1 + d4 + d7) + 1 * (d2 + d5 + d8)\<close>
  divisible by 10. \<open>021000021\<close> is accepted and \<open>123456789\<close> is rejected.
\<close>

theorem validRoutingNumber_iff:
  "(validRoutingNumber Bank (Some v) = Accept \<longleftrightarrow>
      length v = 9 \<and> list_all is_digit v \<and>
      (3 * (digit_value (v ! 0) + digit_value (v ! 3) + digit_value (v ! 6))
       + 7 * (digit_value (v ! 1) + digit_value (v ! 4) + digit_value (v ! 7))
       + 1 * (digit_value (v ! 2) + digit_value (v ! 5) + digit_value (v ! 8))) mod 10 = 0)
   \<and> validRoutingNumber Bank (Some (js ''021000021'')) = Accept
   \<and> validRoutingNumber Bank (Some (js ''123456789'')) = Reject ''Invalid routing number''"
proof -
  have "validRoutingNumber Bank (Some v) = Accept \<longleftrightarrow>
      length v = 9 \<and> list_all is_digit v \<and>
      (3 * (digit_value (v ! 0) + digit_value (v ! 3) + digit_value (v ! 6))
       + 7 * (digit_value (v ! 1) + digit_value (v ! 4) + digit_value (v ! 7))
       + 1 * (digit_value (v ! 2) + digit_value (v ! 5) + digit_value (v ! 8))) mod 10 = 0"
    by (auto simp add: validRoutingNumber_def digits_between_def Let_def)
  moreover have "validRoutingNumber Bank (Some (js ''021000021'')) = Accept"
    by (simp add: validator_eval)
  moreover have "validRoutingNumber Bank (Some (js ''123456789'')) = Reject ''Invalid routing number''"
    by (simp add: validator_eval)
  ultimately show ?thesis by blast
qed

text \<open>
  C3, at the two places where the patterns of \<open>validCardType\<close> leave the ranges that the
  comments beside them give. \<open>6221300000000004\<close> has a valid Luhn sum and a prefix inside
  622126-622925, so the table makes it Discover; the code rejects it. \<open>2220000000000000\<close>
  has prefix 2220, below 2221, so the table gives no brand; the code accepts it.
\<close>

theorem validCardType_range_slips:
  "classifyCard_spec (js ''6221300000000004'') = Discover
   \<and> validFormat Card (js ''6221300000000004'') = Accept
   \<and> validCardType Card (js ''6221300000000004'')
       = Reject ''Card type not supported. We accept Visa, Mastercard, Amex, and Discover''
   \<and> classifyCard_spec (js ''2220000000000000'') = Unknown
   \<and> validCardType Card (js ''2220000000000000'') = Accept"
  by (simp add: validator_eval)

subsection \<open>The prefixes that \<open>validCardType\<close> accepts\<close>

text \<open>
  Each group of patterns of \<open>validCardType\<close> is a range of the number read from the first
  digits of the string. A pattern over \<open>n\<close> characters fails on a shorter string, and so does
  the range.
\<close>

lemma nat_digit_value: "nat (digit_value a) = unat a - 48"
  unfolding digit_value_def by linarith

lemma short_prefix: "length c < n \<Longrightarrow> \<not> prefix_in n lo hi c"
  by (simp add: prefix_in_def prefix_value_def)

lemma short_re_prefix: "length c < length p \<Longrightarrow> \<not> re_prefix p c"
  by (induction p c rule: re_prefix.induct) auto

lemma list_shape1: obtains "length c < 1" | a r where "c = a # r"
  by (cases c) auto

lemma list_shape2: obtains "length c < 2" | a b r where "c = a # b # r"
proof (cases c rule: list_shape1)
  case (2 a c1)
  then show ?thesis using that by (cases c1 rule: list_shape1) auto
qed (use that in auto)

lemma list_shape3: obtains "length c < 3" | a b d r where "c = a # b # d # r"
proof (cases c rule: list_shape2)
  case (2 a b c1)
  then show ?thesis using that by (cases c1 rule: list_shape1) auto
qed (use that in auto)

lemma list_shape4: obtains "length c < 4" | a b d e r where "c = a # b # d # e # r"
proof (cases c rule: list_shape2)
  case (2 a b c1)
  then show ?thesis using that by (cases c1 rule: list_shape2) auto
qed (use that in auto)

lemma list_shape6: obtains "length c < 6" | a b d e f g r where "c = a # b # d # e # f # g # r"
proof (cases c rule: list_shape4)
  case (2 a b d e c1)
  then show ?thesis using that by (cases c1 rule: list_shape2) auto
qed (use that in auto)

lemma digit_char: "is_digit a \<Longrightarrow> unat a = 48 + (unat a - 48) \<and> unat a - 48 \<le> 9"
  by (auto simp add: is_digit_def word_le_nat_alt)

lemmas pattern_eval = prefix_in_def prefix_value_def nat_digit_value in_class_def lit_def rng_def
  jc_def word_le_nat_alt

lemma visa_range: "re_prefix [lit CHR ''4''] c \<longleftrightarrow> prefix_in 1 4 4 c"
proof (cases c rule: list_shape1)
  case 1
  then show ?thesis by (simp add: short_prefix short_re_prefix)
next
  case (2 a r)
  show ?thesis unfolding 2 by (auto simp add: pattern_eval is_digit_def)
qed

lemma two_digits:
  assumes "c = a # b # r"
    and "\<And>x0 x1 :: nat. x0 \<le> 9 \<Longrightarrow> x1 \<le> 9 \<Longrightarrow>
           (lo \<le> 10 * x0 + x1 \<and> 10 * x0 + x1 \<le> hi) = P (48 + x0) (48 + x1)"
    and "\<And>u v. P u v \<Longrightarrow> 48 \<le> u \<and> u \<le> 57 \<and> 48 \<le> v \<and> v \<le> 57"
  shows "P (unat a) (unat b) \<longleftrightarrow> prefix_in 2 lo hi c"
proof (cases "is_digit a \<and> is_digit b")
  case False
  then have "\<not> P (unat a) (unat b)" using assms(3) [of "unat a" "unat b"]
    by (auto simp add: is_digit_def word_le_nat_alt)
  then show ?thesis using False unfolding assms(1) by (auto simp add: prefix_in_def prefix_value_def)
next
  case True
  define x0 x1 where "x0 = unat a - 48" and "x1 = unat b - 48"
  have u: "unat a = 48 + x0" "x0 \<le> 9" "unat b = 48 + x1" "x1 \<le> 9"
    using True digit_char [of a] digit_char [of b] by (simp_all add: x0_def x1_def)
  show ?thesis
    unfolding assms(1) using True assms(2) [OF u(2,4)]
    by (simp add: prefix_in_def prefix_value_def nat_digit_value u(1,3))
qed

lemma mastercard5_range:
  "re_prefix [lit CHR ''5'', rng CHR ''1'' CHR ''5''] c \<longleftrightarrow> prefix_in 2 51 55 c"
proof (cases c rule: list_shape2)
  case 1
  then show ?thesis by (simp add: short_prefix short_re_prefix)
next
  case (2 a b r)
  have "(53 \<le> unat a \<and> unat a \<le> 53 \<and> 49 \<le> unat b \<and> unat b \<le> 53) \<longleftrightarrow> prefix_in 2 51 55 c"
    by (rule two_digits [OF 2]) (auto, presburger+)
  then show ?thesis unfolding 2 by (simp add: pattern_eval)
qed

lemma three_digits:
  assumes "c = a # b # d # r"
    and "\<And>x0 x1 x2 :: nat. x0 \<le> 9 \<Longrightarrow> x1 \<le> 9 \<Longrightarrow> x2 \<le> 9 \<Longrightarrow>
           (lo \<le> 10 * (10 * x0 + x1) + x2 \<and> 10 * (10 * x0 + x1) + x2 \<le> hi)
           = P (48 + x0) (48 + x1) (48 + x2)"
    and "\<And>u v w. P u v w \<Longrightarrow> 48 \<le> u \<and> u \<le> 57 \<and> 48 \<le> v \<and> v \<le> 57 \<and> 48 \<le> w \<and> w \<le> 57"
  shows "P (unat a) (unat b) (unat d) \<longleftrightarrow> prefix_in 3 lo hi c"
proof (cases "is_digit a \<and> is_digit b \<and> is_digit d")
  case False
  then have "\<not> P (unat a) (unat b) (unat d)" using assms(3) [of "unat a" "unat b" "unat d"]
    by (auto simp add: is_digit_def word_le_nat_alt)
  then show ?thesis using False unfolding assms(1) by (auto simp add: prefix_in_def prefix_value_def)
next
  case True
  define x0 x1 x2 where "x0 = unat a - 48" and "x1 = unat b - 48" and "x2 = unat d - 48"
  have u: "unat a = 48 + x0" "unat b = 48 + x1" "unat d = 48 + x2"
    and b: "x0 \<le> 9" "x1 \<le> 9" "x2 \<le> 9"
    using True digit_char [of a] digit_char [of b] digit_char [of d]
    by (simp_all add: x0_def x1_def x2_def)
  show ?thesis
    unfolding assms(1) using True assms(2) [OF b]
    by (simp add: prefix_in_def prefix_value_def nat_digit_value u)
qed

lemma four_digits:
  assumes "c = a # b # d # e # r"
    and "\<And>x0 x1 x2 x3 :: nat. x0 \<le> 9 \<Longrightarrow> x1 \<le> 9 \<Longrightarrow> x2 \<le> 9 \<Longrightarrow> x3 \<le> 9 \<Longrightarrow>
           (lo \<le> 10 * (10 * (10 * x0 + x1) + x2) + x3 \<and> 10 * (10 * (10 * x0 + x1) + x2) + x3 \<le> hi)
           = P (48 + x0) (48 + x1) (48 + x2) (48 + x3)"
    and "\<And>u v w z. P u v w z \<Longrightarrow>
           48 \<le> u \<and> u \<le> 57 \<and> 48 \<le> v \<and> v \<le> 57 \<and> 48 \<le> w \<and> w \<le> 57 \<and> 48 \<le> z \<and> z \<le> 57"
  shows "P (unat a) (unat b) (unat d) (unat e) \<longleftrightarrow> prefix_in 4 lo hi c"
proof (cases "is_digit a \<and> is_digit b \<and> is_digit d \<and> is_digit e")
  case False
  then have "\<not> P (unat a) (unat b) (unat d) (unat e)"
    using assms(3) [of "unat a" "unat b" "unat d" "unat e"]
    by (auto simp add: is_digit_def word_le_nat_alt)
  then show ?thesis using False unfolding assms(1) by (auto simp add: prefix_in_def prefix_value_def)
next
  case True
  define x0 x1 x2 x3 where "x0 = unat a - 48" and "x1 = unat b - 48" and "x2 = unat d - 48"
    and "x3 = unat e - 48"
  have u: "unat a = 48 + x0" "unat b = 48 + x1" "unat d = 48 + x2" "unat e = 48 + x3"
    and b: "x0 \<le> 9" "x1 \<le> 9" "x2 \<le> 9" "x3 \<le> 9"
    using True digit_char [of a] digit_char [of b] digit_char [of d] digit_char [of e]
    by (simp_all add: x0_def x1_def x2_def x3_def)
  show ?thesis
    unfolding assms(1) using True assms(2) [OF b]
    by (simp add: prefix_in_def prefix_value_def nat_digit_value u)
qed

lemma amex_range:
  "re_prefix [lit CHR ''3'', lit CHR ''4''] c \<or> re_prefix [lit CHR ''3'', lit CHR ''7''] c
   \<longleftrightarrow> prefix_in 2 34 34 c \<or> prefix_in 2 37 37 c"
proof (cases c rule: list_shape2)
  case 1
  then show ?thesis by (simp add: short_prefix short_re_prefix)
next
  case (2 a b r)
  have "(51 \<le> unat a \<and> unat a \<le> 51 \<and> 52 \<le> unat b \<and> unat b \<le> 52) \<longleftrightarrow> prefix_in 2 34 34 c"
    by (rule two_digits [OF 2]) (auto, presburger+)
  moreover
  have "(51 \<le> unat a \<and> unat a \<le> 51 \<and> 55 \<le> unat b \<and> unat b \<le> 55) \<longleftrightarrow> prefix_in 2 37 37 c"
    by (rule two_digits [OF 2]) (auto, presburger+)
  ultimately show ?thesis unfolding 2 by (simp add: pattern_eval)
qed

lemma discover65_range:
  "re_prefix [lit CHR ''6'', lit CHR ''5''] c \<longleftrightarrow> prefix_in 2 65 65 c"
proof (cases c rule: list_shape2)
  case 1
  then show ?thesis by (simp add: short_prefix short_re_prefix)
next
  case (2 a b r)
  have "(54 \<le> unat a \<and> unat a \<le> 54 \<and> 53 \<le> unat b \<and> unat b \<le> 53) \<longleftrightarrow> prefix_in 2 65 65 c"
    by (rule two_digits [OF 2]) (auto, presburger+)
  then show ?thesis unfolding 2 by (simp add: pattern_eval)
qed

lemma discover64_range:
  "re_prefix [lit CHR ''6'', lit CHR ''4'', rng CHR ''4'' CHR ''9''] c \<longleftrightarrow> prefix_in 3 644 649 c"
proof (cases c rule: list_shape3)
  case 1
  then show ?thesis by (simp add: short_prefix short_re_prefix)
next
  case (2 a b d r)
  have "(54 \<le> unat a \<and> unat a \<le> 54 \<and> 52 \<le> unat b \<and> unat b \<le> 52 \<and> 52 \<le> unat d \<and> unat d \<le> 57)
        \<longleftrightarrow> prefix_in 3 644 649 c"
  proof (rule three_digits [OF 2], goal_cases)
    case (1 x0 x1 x2)
    then show ?case
      by (cases "x0 \<le> 5"; cases "x0 = 6"; cases "x1 \<le> 3"; cases "x1 = 4"; auto)
  qed auto
  then show ?thesis unfolding 2 by (simp add: pattern_eval)
qed

lemma discover6011_range:
  "re_prefix [lit CHR ''6'', lit CHR ''0'', lit CHR ''1'', lit CHR ''1''] c \<longleftrightarrow> prefix_in 4 6011 6011 c"
proof (cases c rule: list_shape4)
  case 1
  then show ?thesis by (simp add: short_prefix short_re_prefix)
next
  case (2 a b d e r)
  have "(54 \<le> unat a \<and> unat a \<le> 54 \<and> 48 \<le> unat b \<and> unat b \<le> 48 \<and> 49 \<le> unat d \<and> unat d \<le> 49
         \<and> 49 \<le> unat e \<and> unat e \<le> 49) \<longleftrightarrow> prefix_in 4 6011 6011 c"
  proof (rule four_digits [OF 2], goal_cases)
    case (1 x0 x1 x2 x3)
    then show ?case
      by (cases "x0 \<le> 5"; cases "x0 = 6"; cases "x1 = 0"; cases "x2 = 0"; cases "x2 = 1"; auto)
  qed auto
  then show ?thesis unfolding 2 by (simp add: pattern_eval)
qed

lemma mastercard2_range:
  "re_prefix [lit CHR ''2'', lit CHR ''2'', rng CHR ''2'' CHR ''9'', rng CHR ''0'' CHR ''9''] c
   \<or> re_prefix [lit CHR ''2'', rng CHR ''3'' CHR ''6'', rng CHR ''0'' CHR ''9'', rng CHR ''0'' CHR ''9''] c
   \<or> re_prefix [lit CHR ''2'', lit CHR ''7'', rng CHR ''0'' CHR ''1'', rng CHR ''0'' CHR ''9''] c
   \<or> re_prefix [lit CHR ''2'', lit CHR ''7'', lit CHR ''2'', lit CHR ''0''] c
   \<longleftrightarrow> prefix_in 4 2220 2720 c"
proof (cases c rule: list_shape4)
  case 1
  then show ?thesis by (simp add: short_prefix short_re_prefix)
next
  case (2 a b d e r)
  have "(50 \<le> unat a \<and> unat a \<le> 50 \<and> 50 \<le> unat b \<and> unat b \<le> 50 \<and> 50 \<le> unat d \<and> unat d \<le> 57
           \<and> 48 \<le> unat e \<and> unat e \<le> 57
         \<or> 50 \<le> unat a \<and> unat a \<le> 50 \<and> 51 \<le> unat b \<and> unat b \<le> 54 \<and> 48 \<le> unat d \<and> unat d \<le> 57
           \<and> 48 \<le> unat e \<and> unat e \<le> 57
         \<or> 50 \<le> unat a \<and> unat a \<le> 50 \<and> 55 \<le> unat b \<and> unat b \<le> 55 \<and> 48 \<le> unat d \<and> unat d \<le> 49
           \<and> 48 \<le> unat e \<and> unat e \<le> 57
         \<or> 50 \<le> unat a \<and> unat a \<le> 50 \<and> 55 \<le> unat b \<and> unat b \<le> 55 \<and> 50 \<le> unat d \<and> unat d \<le> 50
           \<and> 48 \<le> unat e \<and> unat e \<le> 48) \<longleftrightarrow> prefix_in 4 2220 2720 c"
  proof (rule four_digits [OF 2], goal_cases)
    case (1 x0 x1 x2 x3)
    then show ?case
      by (cases "x0 \<le> 1"; cases "x0 = 2"; cases "x1 \<le> 1"; cases "x1 = 2"; cases "x1 \<le> 6";
          cases "x1 = 7"; cases "x2 \<le> 1"; cases "x2 = 2"; auto)
  qed auto
  then show ?thesis unfolding 2 by (simp add: pattern_eval)
qed

lemma six_digits:
  assumes "c = a # b # d # e # f # g # r"
    and "\<And>x0 x1 x2 x3 x4 x5 :: nat.
           x0 \<le> 9 \<Longrightarrow> x1 \<le> 9 \<Longrightarrow> x2 \<le> 9 \<Longrightarrow> x3 \<le> 9 \<Longrightarrow> x4 \<le> 9 \<Longrightarrow> x5 \<le> 9 \<Longrightarrow>
           (lo \<le> 10 * (10 * (10 * (10 * (10 * x0 + x1) + x2) + x3) + x4) + x5
            \<and> 10 * (10 * (10 * (10 * (10 * x0 + x1) + x2) + x3) + x4) + x5 \<le> hi)
           = P (48 + x0) (48 + x1) (48 + x2) (48 + x3) (48 + x4) (48 + x5)"
    and "\<And>u v w z y t. P u v w z y t \<Longrightarrow>
           48 \<le> u \<and> u \<le> 57 \<and> 48 \<le> v \<and> v \<le> 57 \<and> 48 \<le> w \<and> w \<le> 57
           \<and> 48 \<le> z \<and> z \<le> 57 \<and> 48 \<le> y \<and> y \<le> 57 \<and> 48 \<le> t \<and> t \<le> 57"
  shows "P (unat a) (unat b) (unat d) (unat e) (unat f) (unat g) \<longleftrightarrow> prefix_in 6 lo hi c"
proof (cases "is_digit a \<and> is_digit b \<and> is_digit d \<and> is_digit e \<and> is_digit f \<and> is_digit g")
  case False
  then have "\<not> P (unat a) (unat b) (unat d) (unat e) (unat f) (unat g)"
    using assms(3) [of "unat a" "unat b" "unat d" "unat e" "unat f" "unat g"]
    by (auto simp add: is_digit_def word_le_nat_alt)
  then show ?thesis using False unfolding assms(1) by (auto simp add: prefix_in_def prefix_value_def)
next
  case True
  define x0 x1 x2 x3 x4 x5 where "x0 = unat a - 48" and "x1 = unat b - 48" and "x2 = unat d - 48"
    and "x3 = unat e - 48" and "x4 = unat f - 48" and "x5 = unat g - 48"
  have u: "unat a = 48 + x0" "unat b = 48 + x1" "unat d = 48 + x2" "unat e = 48 + x3"
    "unat f = 48 + x4" "unat g = 48 + x5"
    and b: "x0 \<le> 9" "x1 \<le> 9" "x2 \<le> 9" "x3 \<le> 9" "x4 \<le> 9" "x5 \<le> 9"
    using True digit_char [of a] digit_char [of b] digit_char [of d] digit_char [of e]
      digit_char [of f] digit_char [of g]
    by (simp_all add: x0_def x1_def x2_def x3_def x4_def x5_def)
  show ?thesis
    unfolding assms(1) using True assms(2) [OF b]
    by (simp add: prefix_in_def prefix_value_def nat_digit_value u)
qed

lemma discover622_low_range:
  "re_prefix [lit CHR ''6'', lit CHR ''2'', lit CHR ''2'', lit CHR ''1'', lit CHR ''2'', rng CHR ''6'' CHR ''9''] c
   \<longleftrightarrow> prefix_in 6 622126 622129 c"
proof (cases c rule: list_shape6)
  case 1
  then show ?thesis by (simp add: short_prefix short_re_prefix)
next
  case (2 a b d e f g r)
  have "(54 \<le> unat a \<and> unat a \<le> 54 \<and> 50 \<le> unat b \<and> unat b \<le> 50 \<and> 50 \<le> unat d \<and> unat d \<le> 50
         \<and> 49 \<le> unat e \<and> unat e \<le> 49 \<and> 50 \<le> unat f \<and> unat f \<le> 50 \<and> 54 \<le> unat g \<and> unat g \<le> 57)
        \<longleftrightarrow> prefix_in 6 622126 622129 c"
  proof (rule six_digits [OF 2], goal_cases)
    case (1 x0 x1 x2 x3 x4 x5)
    show ?case
    proof (cases "x0 = 6 \<and> x1 = 2 \<and> x2 = 2")
      case True
      with 1 show ?thesis
        by (cases "x3 = 0"; cases "x3 = 1"; cases "x4 \<le> 1"; cases "x4 = 2"; auto)
    next
      case False
      with 1 show ?thesis
        by (cases "x0 \<le> 5"; cases "x0 = 6"; cases "x1 \<le> 1"; cases "x1 = 2"; cases "x2 \<le> 1"; auto)
    qed
  qed auto
  then show ?thesis unfolding 2 by (simp add: pattern_eval)
qed

lemma discover622_high_range:
  "re_prefix [lit CHR ''6'', lit CHR ''2'', lit CHR ''2'', lit CHR ''9'', rng CHR ''0'' CHR ''1'', rng CHR ''0'' CHR ''9''] c
   \<or> re_prefix [lit CHR ''6'', lit CHR ''2'', lit CHR ''2'', rng CHR ''2'' CHR ''8'', rng CHR ''0'' CHR ''9'', rng CHR ''0'' CHR ''9''] c
   \<or> re_prefix [lit CHR ''6'', lit CHR ''2'', lit CHR ''2'', lit CHR ''9'', lit CHR ''2'', rng CHR ''0'' CHR ''5''] c
   \<longleftrightarrow> prefix_in 6 622200 622925 c"
proof (cases c rule: list_shape6)
  case 1
  then show ?thesis by (simp add: short_prefix short_re_prefix)
next
  case (2 a b d e f g r)
  have "(54 \<le> unat a \<and> unat a \<le> 54 \<and> 50 \<le> unat b \<and> unat b \<le> 50 \<and> 50 \<le> unat d \<and> unat d \<le> 50
           \<and> 57 \<le> unat e \<and> unat e \<le> 57 \<and> 48 \<le> unat f \<and> unat f \<le> 49 \<and> 48 \<le> unat g \<and> unat g \<le> 57
         \<or> 54 \<le> unat a \<and> unat a \<le> 54 \<and> 50 \<le> unat b \<and> unat b \<le> 50 \<and> 50 \<le> unat d \<and> unat d \<le> 50
           \<and> 50 \<le> unat e \<and> unat e \<le> 56 \<and> 48 \<le> unat f \<and> unat f \<le> 57 \<and> 48 \<le> unat g \<and> unat g \<le> 57
         \<or> 54 \<le> unat a \<and> unat a \<le> 54 \<and> 50 \<le> unat b \<and> unat b \<le> 50 \<and> 50 \<le> unat d \<and> unat d \<le> 50
           \<and> 57 \<le> unat e \<and> unat e \<le> 57 \<and> 50 \<le> unat f \<and> unat f \<le> 50 \<and> 48 \<le> unat g \<and> unat g \<le> 53)
        \<longleftrightarrow> prefix_in 6 622200 622925 c"
  proof (rule six_digits [OF 2], goal_cases)
    case (1 x0 x1 x2 x3 x4 x5)
    show ?case
    proof (cases "x0 = 6 \<and> x1 = 2 \<and> x2 = 2")
      case True
      with 1 show ?thesis
        by (cases "x3 \<le> 1"; cases "x3 \<le> 8"; cases "x4 \<le> 1"; cases "x4 = 2"; auto)
    next
      case False
      with 1 show ?thesis
        by (cases "x0 \<le> 5"; cases "x0 = 6"; cases "x1 \<le> 1"; cases "x1 = 2"; cases "x2 \<le> 1"; auto)
    qed
  qed auto
  then show ?thesis unfolding 2 by (simp add: pattern_eval)
qed

text \<open>
  The card numbers that \<open>validCardType\<close> accepts, as ranges of the leading digits of the
  number without its white space and hyphens: 4; 51-55; 2220-2720; 34 and 37; 6011;
  622126-622129 and 622200-622925; 644-649; 65. Against the comments in the source, 2220 is
  inside the Mastercard range and 622130-622199 is outside the Discover range.
\<close>

theorem validCardType_ranges:
  "validCardType Card v = Accept \<longleftrightarrow>
     prefix_in 1 4 4 (strip_separators v)
     \<or> prefix_in 2 51 55 (strip_separators v)
     \<or> prefix_in 4 2220 2720 (strip_separators v)
     \<or> prefix_in 2 34 34 (strip_separators v) \<or> prefix_in 2 37 37 (strip_separators v)
     \<or> prefix_in 4 6011 6011 (strip_separators v)
     \<or> prefix_in 6 622126 622129 (strip_separators v)
     \<or> prefix_in 6 622200 622925 (strip_separators v)
     \<or> prefix_in 3 644 649 (strip_separators v)
     \<or> prefix_in 2 65 65 (strip_separators v)"
proof -
  note r = visa_range [of "strip_separators v"] mastercard5_range [of "strip_separators v"]
    mastercard2_range [of "strip_separators v"] amex_range [of "strip_separators v"]
    discover6011_range [of "strip_separators v"] discover622_low_range [of "strip_separators v"]
    discover622_high_range [of "strip_separators v"] discover64_range [of "strip_separators v"]
    discover65_range [of "strip_separators v"]
  have "validCardType Card v = Accept \<longleftrightarrow>
      re_prefix [lit CHR ''4''] (strip_separators v)
      \<or> re_prefix [lit CHR ''5'', rng CHR ''1'' CHR ''5''] (strip_separators v)
      \<or> (re_prefix [lit CHR ''2'', lit CHR ''2'', rng CHR ''2'' CHR ''9'', rng CHR ''0'' CHR ''9''] (strip_separators v)
         \<or> re_prefix [lit CHR ''2'', rng CHR ''3'' CHR ''6'', rng CHR ''0'' CHR ''9'', rng CHR ''0'' CHR ''9''] (strip_separators v)
         \<or> re_prefix [lit CHR ''2'', lit CHR ''7'', rng CHR ''0'' CHR ''1'', rng CHR ''0'' CHR ''9''] (strip_separators v)
         \<or> re_prefix [lit CHR ''2'', lit CHR ''7'', lit CHR ''2'', lit CHR ''0''] (strip_separators v))
      \<or> (re_prefix [lit CHR ''3'', lit CHR ''4''] (strip_separators v)
         \<or> re_prefix [lit CHR ''3'', lit CHR ''7''] (strip_separators v))
      \<or> re_prefix [lit CHR ''6'', lit CHR ''0'', lit CHR ''1'', lit CHR ''1''] (strip_separators v)
      \<or> re_prefix [lit CHR ''6'', lit CHR ''2'', lit CHR ''2'', lit CHR ''1'', lit CHR ''2'', rng CHR ''6'' CHR ''9''] (strip_separators v)
      \<or> (re_prefix [lit CHR ''6'', lit CHR ''2'', lit CHR ''2'', lit CHR ''9'', rng CHR ''0'' CHR ''1'', rng CHR ''0'' CHR ''9''] (strip_separators v)
         \<or> re_prefix [lit CHR ''6'', lit CHR ''2'', lit CHR ''2'', rng CHR ''2'' CHR ''8'', rng CHR ''0'' CHR ''9'', rng CHR ''0'' CHR ''9''] (strip_separators v)
         \<or> re_prefix [lit CHR ''6'', lit CHR ''2'', lit CHR ''2'', lit CHR ''9'', lit CHR ''2'', rng CHR ''0'' CHR ''5''] (strip_separators v))
      \<or> re_prefix [lit CHR ''6'', lit CHR ''4'', rng CHR ''4'' CHR ''9''] (strip_separators v)
      \<or> re_prefix [lit CHR ''6'', lit CHR ''5''] (strip_separators v)"
    unfolding validCardType_def Let_def by simp
  then show ?thesis unfolding r by blast
qed

section \<open>Properties of the primitives\<close>

subsection \<open>Hexadecimal, split and padding\<close>

lemma unat_hex_digit: "n < 16 \<Longrightarrow> unat (hex_digit n) = (if n < 10 then 48 + n else 87 + n)"
  unfolding hex_digit_def by (simp only: unat_of_nat if_distrib [of unat] cong: if_cong) simp

lemma unat_low_byte: "unat (ucast (c :: jschar) :: byte) = unat c mod 256"
  by transfer (simp add: take_bit_eq_mod nat_mod_distrib)

lemma hex_value_hex_digit: "n < 16 \<Longrightarrow> hex_value (hex_digit n) = Some n"
  by (simp add: hex_value_def Let_def word_le_nat_alt unat_low_byte unat_hex_digit)

lemma hex_digit_not_colon: "n < 16 \<Longrightarrow> hex_digit n \<noteq> colon"
  by (auto simp add: colon_def jc_def word_unat_eq_iff unat_hex_digit)

lemma byte_nibbles: "unat (b :: byte) div 16 < 16" "unat b mod 16 < 16"
  "of_nat (16 * (unat b div 16) + unat b mod 16) = b"
proof -
  have "unat b < 256" using unsigned_less [of b] by simp
  then show "unat b div 16 < 16" by simp
  show "unat b mod 16 < 16" by simp
  have "16 * (unat b div 16) + unat b mod 16 = unat b" by simp
  then show "of_nat (16 * (unat b div 16) + unat b mod 16) = b" by simp
qed

lemma to_hex_Nil: "to_hex [] = []" by (simp add: to_hex_def)
lemma to_hex_Cons: "to_hex (b # bs) = hex_digit (unat b div 16) # hex_digit (unat b mod 16) # to_hex bs"
  by (simp add: to_hex_def)
lemma to_hex_append: "to_hex (a @ b) = to_hex a @ to_hex b"
  by (simp add: to_hex_def)

lemma from_hex_to_hex: "from_hex (to_hex bs) = bs"
  by (induction bs) (simp_all add: to_hex_Nil to_hex_Cons hex_value_hex_digit byte_nibbles)

lemma colon_notin_to_hex: "colon \<notin> set (to_hex bs)"
proof (induction bs)
  case Nil
  then show ?case by (simp add: to_hex_Nil)
next
  case (Cons b bs)
  have "hex_digit (unat b div 16) \<noteq> colon" "hex_digit (unat b mod 16) \<noteq> colon"
    by (simp_all add: hex_digit_not_colon byte_nibbles)
  with Cons show ?case by (auto simp add: to_hex_Cons)
qed

lemma length_to_hex: "length (to_hex bs) = 2 * length bs"
  by (induction bs) (simp_all add: to_hex_Nil to_hex_Cons)

lemma split_on_no_sep: "sep \<notin> set a \<Longrightarrow> split_on sep a = [a]"
  by (induction a) auto

lemma split_on_first: "sep \<notin> set a \<Longrightarrow> split_on sep (a @ sep # b) = a # split_on sep b"
  by (induction a) auto

lemma split_on_not_Nil: "split_on sep s \<noteq> []"
  by (induction s) (auto split: list.splits)

lemma pkcs7_pad_length: "length (pkcs7_pad m) mod 16 = 0" "pkcs7_pad m \<noteq> []"
proof -
  have "length (pkcs7_pad m) = length m + (16 - length m mod 16)"
    by (simp add: pkcs7_pad_def Let_def)
  then show "length (pkcs7_pad m) mod 16 = 0" by presburger
  show "pkcs7_pad m \<noteq> []" by (simp add: pkcs7_pad_def Let_def)
qed

lemma pkcs7_unpad_pad: "pkcs7_unpad (pkcs7_pad m) = Some m"
proof -
  define n where "n = 16 - length m mod 16"
  have n: "0 < n" "n \<le> 16" by (simp_all add: n_def)
  have u: "unat (of_nat n :: byte) = n" using n by (simp add: unat_of_nat)
  have l: "last (m @ replicate n (of_nat n :: byte)) = of_nat n" using n by simp
  show ?thesis
    unfolding pkcs7_unpad_def pkcs7_pad_def n_def [symmetric] Let_def l u
    using n by simp
qed

lemma cbc_encrypt_Nil: "cbc_encrypt E prev [] = []"
  by (simp add: cbc_encrypt.simps)

lemma cbc_decrypt_Nil: "cbc_decrypt D prev [] = []"
  by (simp add: cbc_decrypt.simps)

lemma length_xor_bytes: "length (xor_bytes a b) = min (length a) (length b)"
  by (simp add: xor_bytes_def)

lemma xor_bytes_cancel: "length a = length b \<Longrightarrow> xor_bytes a (xor_bytes a b) = b"
proof (induction a arbitrary: b)
  case Nil
  then show ?case by (simp add: xor_bytes_def)
next
  case (Cons x xs)
  then obtain y ys where b: "b = y # ys" by (cases b) auto
  have "x XOR (x XOR y) = y" by (simp flip: xor.assoc)
  with Cons b show ?case by (simp add: xor_bytes_def)
qed

lemma cbc_round_trip:
  "block_cipher E D \<Longrightarrow> length prev = 16 \<Longrightarrow> length m mod 16 = 0 \<Longrightarrow>
   cbc_decrypt D prev (cbc_encrypt E prev m) = m \<and> length (cbc_encrypt E prev m) = length m"
proof (induction E prev m rule: cbc_encrypt.induct)
  case (1 E prev m)
  note bc = "1.prems"(1) and lprev = "1.prems"(2) and lm = "1.prems"(3)
  show ?case
  proof (cases "m = []")
    case True
    then show ?thesis by (simp add: cbc_encrypt_Nil cbc_decrypt_Nil)
  next
    case False
    with lm have len: "16 \<le> length m" by (cases "length m < 16") auto
    define p where "p = take 16 m"
    define c where "c = E (xor_bytes prev p)"
    have lp: "length p = 16" using len by (simp add: p_def)
    have lx: "length (xor_bytes prev p) = 16" using lp lprev by (simp add: length_xor_bytes)
    have lc: "length c = 16" and dc: "D c = xor_bytes prev p"
      using bc [unfolded block_cipher_def, rule_format, OF lx] by (simp_all add: c_def)
    have rest: "length (drop 16 m) mod 16 = 0"
      using lm len by (simp add: mod_diff_eq [symmetric] le_mod_geq)
    have IH: "cbc_decrypt D c (cbc_encrypt E c (drop 16 m)) = drop 16 m
              \<and> length (cbc_encrypt E c (drop 16 m)) = length (drop 16 m)"
      using "1.IH" [OF False c_def [unfolded p_def] bc _ rest] lc by (simp add: c_def p_def)
    have enc: "cbc_encrypt E prev m = c @ cbc_encrypt E c (drop 16 m)"
      using False by (subst cbc_encrypt.simps) (simp add: c_def p_def Let_def)
    have "cbc_decrypt D prev (c @ cbc_encrypt E c (drop 16 m))
          = xor_bytes prev (D c) @ cbc_decrypt D c (cbc_encrypt E c (drop 16 m))"
      using lc by (subst cbc_decrypt.simps) auto
    also have "\<dots> = p @ drop 16 m"
      using IH dc lp lprev by (simp add: xor_bytes_cancel)
    also have "\<dots> = m" by (simp add: p_def)
    finally show ?thesis using enc IH lc len by simp
  qed
qed

lemma js_colon: "js '':'' = [colon]"
  by (simp add: js_def colon_def)

lemma split_stored:
  "split_on colon (to_hex iv @ js '':'' @ to_hex ct) = [to_hex iv, to_hex ct]"
  by (simp add: js_colon split_on_first split_on_no_sep colon_notin_to_hex)

lemma decryptSSN_bytes_encryptSSN:
  assumes "block_cipher E D" "length iv = 16"
  shows "decryptSSN_bytes D (encryptSSN E iv P) = Inr (utf8_encode P)"
proof -
  define m where "m = pkcs7_pad (utf8_encode P)"
  define ct where "ct = cbc_encrypt E iv m"
  have m: "length m mod 16 = 0" "m \<noteq> []" by (simp_all add: m_def pkcs7_pad_length)
  have rt: "cbc_decrypt D iv ct = m" and lct: "length ct = length m"
    using cbc_round_trip [OF assms m(1)] by (simp_all add: ct_def)
  have ct: "ct \<noteq> []" "length ct mod 16 = 0" using m lct by auto
  have enc: "encryptSSN E iv P = to_hex iv @ js '':'' @ to_hex ct"
    by (simp add: encryptSSN_def cipher_hex_def ct_def m_def)
  show ?thesis
    unfolding enc decryptSSN_bytes_def split_stored Let_def
    using assms(2) ct rt
    by (simp add: decipher_bytes_def from_hex_to_hex length_to_hex m_def pkcs7_unpad_pad)
qed

subsection \<open>Decoding inverts encoding on well-formed strings\<close>

lemma unat_byte_of_nat: "k < 256 \<Longrightarrow> unat (of_nat k :: byte) = k"
  by (simp add: unat_of_nat)

lemma utf8_dec_1:
  assumes "cp < 0x80"
  shows "utf8_dec 0 0 0x80 0xBF (utf8_of_cp cp @ bs) = utf16_of_cp cp @ utf8_dec 0 0 0x80 0xBF bs"
proof -
  have u: "unat (of_nat cp :: byte) = cp" using assms by (intro unat_byte_of_nat) simp
  have "utf8_of_cp cp = [of_nat cp]" using assms by (simp only: utf8_of_cp_def if_True)
  moreover have "utf8_dec 0 0 0x80 0xBF (of_nat cp # bs) = of_nat cp # utf8_dec 0 0 0x80 0xBF bs"
    using assms by (subst utf8_dec.simps) (simp only: Let_def u, simp)
  ultimately show ?thesis
    using assms by (simp add: utf16_of_cp_def)
qed

lemma utf8_dec_2:
  assumes "0x80 \<le> cp" "cp < 0x800"
  shows "utf8_dec 0 0 0x80 0xBF (utf8_of_cp cp @ bs) = utf16_of_cp cp @ utf8_dec 0 0 0x80 0xBF bs"
proof -
  define x1 where "x1 = 0xC0 + cp div 64"
  define x2 where "x2 = 0x80 + cp mod 64"
  have r1: "0xC2 \<le> x1" "x1 \<le> 0xDF" using assms unfolding x1_def by simp_all
  have r2: "0x80 \<le> x2" "x2 \<le> 0xBF" unfolding x2_def by simp_all
  have u1: "unat (of_nat x1 :: byte) = x1" using r1 by (intro unat_byte_of_nat) simp
  have u2: "unat (of_nat x2 :: byte) = x2" using r2 by (intro unat_byte_of_nat) simp
  have cp: "(x1 - 0xC0) * 64 + (x2 - 0x80) = cp" unfolding x1_def x2_def by simp
  have enc: "utf8_of_cp cp = [of_nat x1, of_nat x2]"
    using assms unfolding x1_def x2_def by (simp only: utf8_of_cp_def) simp
  have "utf8_dec 0 0 0x80 0xBF (of_nat x1 # of_nat x2 # bs) = utf8_dec 1 (x1 - 0xC0) 0x80 0xBF (of_nat x2 # bs)"
    using r1 by (subst utf8_dec.simps) (simp only: Let_def u1, simp)
  also have "\<dots> = utf16_of_cp ((x1 - 0xC0) * 64 + (x2 - 0x80)) @ utf8_dec 0 0 0x80 0xBF bs"
    using r2 by (subst utf8_dec.simps) (simp only: Let_def u2, simp)
  finally show ?thesis by (simp only: enc cp append_Cons append_Nil)
qed


lemma utf8_dec_3:
  assumes "0x800 \<le> cp" "cp < 0x10000" "\<not> (0xD800 \<le> cp \<and> cp \<le> 0xDFFF)"
  shows "utf8_dec 0 0 0x80 0xBF (utf8_of_cp cp @ bs) = utf16_of_cp cp @ utf8_dec 0 0 0x80 0xBF bs"
proof -
  define d where "d = cp div 64"
  define a where "a = d div 64"
  define b where "b = d mod 64"
  define c where "c = cp mod 64"
  have a4096: "cp div 4096 = a" unfolding a_def d_def by (simp add: div_mult2_eq)
  have d: "32 \<le> d" "d < 1024" "d < 864 \<or> 896 \<le> d" using assms unfolding d_def by arith+
  have cpd: "cp = d * 64 + c" unfolding d_def c_def by simp
  have dab: "d = a * 64 + b" unfolding a_def b_def by simp
  have c: "c < 64" unfolding c_def by simp
  have b: "b < 64" unfolding b_def by simp
  have a: "a < 16" using d(2) unfolding a_def by simp
  have lo: "a = 0 \<Longrightarrow> 32 \<le> b" using d(1) dab by simp
  have hi: "a = 13 \<Longrightarrow> b < 32" using d(3) dab b by auto
  define x1 where "x1 = 0xE0 + a"
  define x2 where "x2 = 0x80 + b"
  define x3 where "x3 = 0x80 + c"
  define lo' where "lo' = (if x1 = 0xE0 then 0xA0 else (0x80::nat))"
  define hi' where "hi' = (if x1 = 0xED then 0x9F else (0xBF::nat))"
  have r1: "0xE0 \<le> x1" "x1 \<le> 0xEF" using a unfolding x1_def by simp_all
  have r2: "lo' \<le> x2" "x2 \<le> hi'"
    using lo hi b unfolding x1_def x2_def lo'_def hi'_def by auto
  have r3: "0x80 \<le> x3" "x3 \<le> 0xBF" using c unfolding x3_def by simp_all
  have u1: "unat (of_nat x1 :: byte) = x1" using r1 by (intro unat_byte_of_nat) simp
  have u2: "unat (of_nat x2 :: byte) = x2" using b unfolding x2_def by (intro unat_byte_of_nat) simp
  have u3: "unat (of_nat x3 :: byte) = x3" using r3 by (intro unat_byte_of_nat) simp
  have cp: "((x1 - 0xE0) * 64 + (x2 - 0x80)) * 64 + (x3 - 0x80) = cp"
    unfolding x1_def x2_def x3_def using cpd dab by simp
  have enc: "utf8_of_cp cp = [of_nat x1, of_nat x2, of_nat x3]"
    using assms(1,2) unfolding x1_def x2_def x3_def a4096 [symmetric] b_def c_def d_def
    by (simp only: utf8_of_cp_def) simp
  have "utf8_dec 0 0 0x80 0xBF (of_nat x1 # of_nat x2 # of_nat x3 # bs)
        = utf8_dec 2 (x1 - 0xE0) lo' hi' (of_nat x2 # of_nat x3 # bs)"
    using r1 by (subst utf8_dec.simps) (simp only: Let_def u1 lo'_def hi'_def, simp)
  also have "\<dots> = utf8_dec 1 ((x1 - 0xE0) * 64 + (x2 - 0x80)) 0x80 0xBF (of_nat x3 # bs)"
    using r2 by (subst utf8_dec.simps) (simp only: Let_def u2, simp)
  also have "\<dots> = utf16_of_cp (((x1 - 0xE0) * 64 + (x2 - 0x80)) * 64 + (x3 - 0x80))
                    @ utf8_dec 0 0 0x80 0xBF bs"
    using r3 by (subst utf8_dec.simps) (simp only: Let_def u3, simp)
  finally show ?thesis by (simp only: enc cp append_Cons append_Nil)
qed

lemma utf8_dec_4:
  assumes "0x10000 \<le> cp" "cp < 0x110000"
  shows "utf8_dec 0 0 0x80 0xBF (utf8_of_cp cp @ bs) = utf16_of_cp cp @ utf8_dec 0 0 0x80 0xBF bs"
proof -
  define e where "e = cp div 64"
  define d where "d = e div 64"
  define a where "a = d div 64"
  define b where "b = d mod 64"
  define c where "c = e mod 64"
  define f where "f = cp mod 64"
  have d4096: "cp div 4096 = d" unfolding d_def e_def by (simp add: div_mult2_eq)
  have a262144: "cp div 262144 = a" unfolding a_def d_def e_def by (simp add: div_mult2_eq)
  have e: "1024 \<le> e" "e < 17408" using assms unfolding e_def by arith+
  have d: "16 \<le> d" "d < 272" using e unfolding d_def by arith+
  have cpe: "cp = e * 64 + f" unfolding e_def f_def by simp
  have edc: "e = d * 64 + c" unfolding d_def c_def by simp
  have dab: "d = a * 64 + b" unfolding a_def b_def by simp
  have f: "f < 64" unfolding f_def by simp
  have c: "c < 64" unfolding c_def by simp
  have b: "b < 64" unfolding b_def by simp
  have a: "a \<le> 4" using d(2) unfolding a_def by simp
  have lo: "a = 0 \<Longrightarrow> 16 \<le> b" using d(1) dab by simp
  have hi: "a = 4 \<Longrightarrow> b < 16" using d(2) dab by simp
  define x1 where "x1 = 0xF0 + a"
  define x2 where "x2 = 0x80 + b"
  define x3 where "x3 = 0x80 + c"
  define x4 where "x4 = 0x80 + f"
  define lo' where "lo' = (if x1 = 0xF0 then 0x90 else (0x80::nat))"
  define hi' where "hi' = (if x1 = 0xF4 then 0x8F else (0xBF::nat))"
  have r1: "0xF0 \<le> x1" "x1 \<le> 0xF4" using a unfolding x1_def by simp_all
  have r2: "lo' \<le> x2" "x2 \<le> hi'"
    using lo hi b unfolding x1_def x2_def lo'_def hi'_def by auto
  have r3: "0x80 \<le> x3" "x3 \<le> 0xBF" using c unfolding x3_def by simp_all
  have r4: "0x80 \<le> x4" "x4 \<le> 0xBF" using f unfolding x4_def by simp_all
  have u1: "unat (of_nat x1 :: byte) = x1" using r1 by (intro unat_byte_of_nat) simp
  have u2: "unat (of_nat x2 :: byte) = x2" using b unfolding x2_def by (intro unat_byte_of_nat) simp
  have u3: "unat (of_nat x3 :: byte) = x3" using r3 by (intro unat_byte_of_nat) simp
  have u4: "unat (of_nat x4 :: byte) = x4" using r4 by (intro unat_byte_of_nat) simp
  have cp: "(((x1 - 0xF0) * 64 + (x2 - 0x80)) * 64 + (x3 - 0x80)) * 64 + (x4 - 0x80) = cp"
    unfolding x1_def x2_def x3_def x4_def using cpe edc dab by simp
  have enc: "utf8_of_cp cp = [of_nat x1, of_nat x2, of_nat x3, of_nat x4]"
    using assms(1)
    unfolding x1_def x2_def x3_def x4_def a262144 [symmetric] b_def c_def f_def d4096 [symmetric] e_def
    by (simp only: utf8_of_cp_def) simp
  have "utf8_dec 0 0 0x80 0xBF (of_nat x1 # of_nat x2 # of_nat x3 # of_nat x4 # bs)
        = utf8_dec 3 (x1 - 0xF0) lo' hi' (of_nat x2 # of_nat x3 # of_nat x4 # bs)"
    using r1 by (subst utf8_dec.simps) (simp only: Let_def u1 lo'_def hi'_def, simp)
  also have "\<dots> = utf8_dec 2 ((x1 - 0xF0) * 64 + (x2 - 0x80)) 0x80 0xBF (of_nat x3 # of_nat x4 # bs)"
    using r2 by (subst utf8_dec.simps) (simp only: Let_def u2, simp)
  also have "\<dots> = utf8_dec 1 (((x1 - 0xF0) * 64 + (x2 - 0x80)) * 64 + (x3 - 0x80)) 0x80 0xBF (of_nat x4 # bs)"
    using r3 by (subst utf8_dec.simps) (simp only: Let_def u3, simp)
  also have "\<dots> = utf16_of_cp ((((x1 - 0xF0) * 64 + (x2 - 0x80)) * 64 + (x3 - 0x80)) * 64 + (x4 - 0x80))
                    @ utf8_dec 0 0 0x80 0xBF bs"
    using r4 by (subst utf8_dec.simps) (simp only: Let_def u4, simp)
  finally show ?thesis by (simp only: enc cp append_Cons append_Nil)
qed

lemma utf8_dec_scalar:
  assumes "cp < 0x110000" "\<not> (0xD800 \<le> cp \<and> cp \<le> 0xDFFF)"
  shows "utf8_dec 0 0 0x80 0xBF (utf8_of_cp cp @ bs) = utf16_of_cp cp @ utf8_dec 0 0 0x80 0xBF bs"
proof -
  consider "cp < 0x80" | "0x80 \<le> cp" "cp < 0x800" | "0x800 \<le> cp" "cp < 0x10000"
    | "0x10000 \<le> cp" by linarith
  then show ?thesis
  proof cases
    case 1
    then show ?thesis by (rule utf8_dec_1)
  next
    case 2
    then show ?thesis by (rule utf8_dec_2)
  next
    case 3
    then show ?thesis using assms(2) by (rule utf8_dec_3)
  next
    case 4
    then show ?thesis using assms(1) by (rule utf8_dec_4)
  qed
qed

lemma unat_surrogates:
  "is_high_surrogate u \<longleftrightarrow> 0xD800 \<le> unat u \<and> unat u \<le> 0xDBFF"
  "is_low_surrogate u \<longleftrightarrow> 0xDC00 \<le> unat u \<and> unat u \<le> 0xDFFF"
  by (simp_all add: is_high_surrogate_def is_low_surrogate_def word_le_nat_alt)

lemma unat_jschar_less: "unat (u :: jschar) < 0x10000"
  using unsigned_less [of u] by simp

lemma utf16_of_unit: "utf16_of_cp (unat (u :: jschar)) = [u]"
  using unat_jschar_less [of u] by (simp add: utf16_of_cp_def)

lemma utf16_of_pair:
  assumes "is_high_surrogate u" "is_low_surrogate v"
  shows "utf16_of_cp (0x10000 + (unat u - 0xD800) * 1024 + (unat v - 0xDC00)) = [u, v]"
proof -
  define h where "h = unat u - 0xD800"
  define l where "l = unat v - 0xDC00"
  have h: "unat u = 0xD800 + h" "h < 1024" using assms(1) by (auto simp add: unat_surrogates h_def)
  have l: "unat v = 0xDC00 + l" "l < 1024" using assms(2) by (auto simp add: unat_surrogates l_def)
  have "(h * 1024 + l) div 1024 = h" "(h * 1024 + l) mod 1024 = l" using l(2) by simp_all
  then have "utf16_of_cp (0x10000 + h * 1024 + l) = [of_nat (unat u), of_nat (unat v)]"
    unfolding h(1) l(1) by (simp add: utf16_of_cp_def)
  then show ?thesis by (simp add: h_def l_def)
qed

lemma utf8_round_trip: "well_formed_utf16 s \<Longrightarrow> utf8_decode (utf8_encode s) = s"
  unfolding utf8_decode_def
proof (induction s rule: utf8_encode.induct)
  case 1
  then show ?case by (simp add: utf8_dec.simps)
next
  case (2 u)
  then have "\<not> (0xD800 \<le> unat u \<and> unat u \<le> 0xDFFF)" by (auto simp add: unat_surrogates)
  then have "utf8_dec 0 0 0x80 0xBF (utf8_of_cp (unat u) @ []) = utf16_of_cp (unat u) @ utf8_dec 0 0 0x80 0xBF []"
    using unat_jschar_less [of u] by (intro utf8_dec_scalar) simp_all
  with 2 show ?case by (simp add: utf16_of_unit utf8_dec.simps)
next
  case (3 u v rest)
  show ?case
  proof (cases "is_high_surrogate u")
    case True
    with 3 have low: "is_low_surrogate v" and wf: "well_formed_utf16 rest" by simp_all
    define cp where "cp = 0x10000 + (unat u - 0xD800) * 1024 + (unat v - 0xDC00)"
    have "0x10000 \<le> cp" "cp < 0x110000"
      using True low by (auto simp add: unat_surrogates cp_def)
    then have "utf8_dec 0 0 0x80 0xBF (utf8_of_cp cp @ utf8_encode rest)
               = utf16_of_cp cp @ utf8_dec 0 0 0x80 0xBF (utf8_encode rest)"
      by (rule utf8_dec_4)
    then show ?thesis
      using True low wf "3.IH"(1) utf16_of_pair [OF True low] by (simp add: cp_def)
  next
    case False
    with 3 have nl: "\<not> is_low_surrogate u" and wf: "well_formed_utf16 (v # rest)" by simp_all
    have "\<not> (0xD800 \<le> unat u \<and> unat u \<le> 0xDFFF)" using False nl by (auto simp add: unat_surrogates)
    then have "utf8_dec 0 0 0x80 0xBF (utf8_of_cp (unat u) @ utf8_encode (v # rest))
               = utf16_of_cp (unat u) @ utf8_dec 0 0 0x80 0xBF (utf8_encode (v # rest))"
      using unat_jschar_less [of u] by (intro utf8_dec_scalar) simp_all
    then show ?thesis
      using False nl wf "3.IH"(2,3) by (simp add: utf16_of_unit)
  qed
qed

subsection \<open>Evaluation at concrete inputs\<close>

lemma sample_cipher: "block_cipher sample_E sample_D"
  by (simp add: block_cipher_def sample_E_def sample_D_def rev_map comp_def)

lemma cbc_encrypt_Cons:
  "cbc_encrypt E prev (x # xs) =
     (let c = E (xor_bytes prev (take 16 (x # xs))) in c @ cbc_encrypt E c (drop 16 (x # xs)))"
  by (subst cbc_encrypt.simps) simp

lemma cbc_decrypt_Cons:
  "cbc_decrypt D prev (x # xs) =
     xor_bytes prev (D (take 16 (x # xs))) @ cbc_decrypt D (take 16 (x # xs)) (drop 16 (x # xs))"
  by (subst cbc_decrypt.simps) simp

lemma replicate_numeral_Cons: "replicate (numeral k) x = x # replicate (pred_numeral k) x"
  by (simp add: numeral_eq_Suc)

lemmas crypto_eval = replicate_numeral_Cons
  encryptSSN_def decryptSSN_def decryptSSN_bytes_def decipher_bytes_def cipher_hex_def
  maskSSN_def slice_last_def
  sample_E_def sample_D_def sample_iv_def
  pkcs7_pad_def pkcs7_unpad_def xor_bytes_def cbc_encrypt_Cons cbc_encrypt_Nil
  cbc_decrypt_Cons cbc_decrypt_Nil
  to_hex_def hex_digit_def hex_value_def colon_def js_def jc_def Let_def
  utf8_decode_def utf8_of_cp_def utf16_of_cp_def is_high_surrogate_def is_low_surrogate_def

section \<open>Properties of utils/encryption.ts\<close>

subsection \<open>Decryption after encryption\<close>

lemma decryptSSN_encryptSSN_decoded:
  assumes "block_cipher E D" "length iv = 16"
  shows "decryptSSN D (encryptSSN E iv P) = Inr (utf8_decode (utf8_encode P))"
  by (simp add: decryptSSN_def decryptSSN_bytes_encryptSSN [OF assms])

text \<open>
  C1, as the code has it. For every plaintext \<open>P\<close> that is well-formed UTF-16 (no surrogate
  code unit outside a pair) and whatever 16 bytes the call draws as initialization vector,
  decrypting the result of encrypting \<open>P\<close> gives \<open>P\<close> again. The block transformation
  under the process key is any pair of functions on 16-byte blocks of which the second
  inverts the first.
\<close>

theorem decryptSSN_encryptSSN:
  assumes "block_cipher E D" "length iv = 16" "well_formed_utf16 P"
  shows "decryptSSN D (encryptSSN E iv P) = Inr P"
  using assms by (simp add: decryptSSN_encryptSSN_decoded utf8_round_trip)

theorem decryptSSN_encryptSSN_witness:
  "decryptSSN sample_D (encryptSSN sample_E sample_iv (js ''123456789'')) = Inr (js ''123456789'')"
proof -
  have "length sample_iv = 16" by (simp add: sample_iv_def)
  moreover have "well_formed_utf16 (js ''123456789'')"
    by (simp add: js_def jc_def is_high_surrogate_def is_low_surrogate_def)
  ultimately show ?thesis
    using decryptSSN_encryptSSN [OF sample_cipher] by blast
qed

text \<open>
  C1, as the claim states it, fails: the one-character string made of the unpaired
  surrogate U+D800 is encoded as the replacement character, and comes back as U+FFFD.
\<close>

theorem decryptSSN_encryptSSN_lone_surrogate:
  "block_cipher sample_E sample_D \<and> length sample_iv = 16
   \<and> decryptSSN sample_D (encryptSSN sample_E sample_iv [0xD800]) = Inr [0xFFFD]"
proof -
  have "decryptSSN sample_D (encryptSSN sample_E sample_iv [0xD800])
        = Inr (utf8_decode (utf8_encode [0xD800]))"
    by (rule decryptSSN_encryptSSN_decoded [OF sample_cipher]) (simp add: sample_iv_def)
  also have "utf8_decode (utf8_encode [0xD800]) = [0xFFFD]"
    by (simp add: crypto_eval utf8_dec.simps)
  finally show ?thesis by (simp add: sample_cipher sample_iv_def)
qed

subsection \<open>Two encryptions of one plaintext\<close>






subsection \<open>Masking\<close>

text \<open>
  C9. For a well-formed plaintext \<open>P\<close> without a colon, masking the encrypted form and masking
  \<open>P\<close> itself both succeed and give the same string: \<open>***-**-\<close> followed by the last four
  characters of \<open>P\<close>.
\<close>

theorem maskSSN_stable:
  assumes "block_cipher E D" "length iv = 16" "well_formed_utf16 P" "colon \<notin> set P"
  shows "maskSSN D (encryptSSN E iv P) = Inr (js ''***-**-'' @ drop (length P - 4) P)
         \<and> maskSSN D P = Inr (js ''***-**-'' @ drop (length P - 4) P)"
proof -
  have "colon \<in> set (encryptSSN E iv P)" by (simp add: encryptSSN_def js_colon)
  then show ?thesis
    using assms by (simp add: maskSSN_def slice_last_def decryptSSN_encryptSSN_decoded utf8_round_trip)
qed

theorem maskSSN_stable_witness:
  "maskSSN sample_D (encryptSSN sample_E sample_iv (js ''123456789'')) = Inr (js ''***-**-6789'')
   \<and> maskSSN sample_D (js ''123456789'') = Inr (js ''***-**-6789'')"
proof -
  have "length sample_iv = 16" by (simp add: sample_iv_def)
  moreover have "well_formed_utf16 (js ''123456789'')"
    by (simp add: js_def jc_def is_high_surrogate_def is_low_surrogate_def)
  moreover have "colon \<notin> set (js ''123456789'')" by (simp add: js_def jc_def colon_def)
  ultimately show ?thesis
    using maskSSN_stable [OF sample_cipher, of sample_iv "js ''123456789''"]
    by (simp add: js_def)
qed

text \<open>
  C10. For a string \<open>s\<close> without a colon, \<open>maskSSN\<close> returns \<open>***-**-\<close> followed by the last
  \<open>min 4 (length s)\<close> characters of \<open>s\<close>: a string of at most four characters stays visible
  as a whole, and the empty string gives \<open>***-**-\<close> alone.
\<close>

theorem maskSSN_legacy:
  "(colon \<notin> set s \<longrightarrow>
      maskSSN D s = Inr (js ''***-**-'' @ drop (length s - min 4 (length s)) s))
   \<and> (colon \<notin> set s \<and> length s \<le> 4 \<longrightarrow> maskSSN D s = Inr (js ''***-**-'' @ s))
   \<and> maskSSN D [] = Inr (js ''***-**-'')"
  by (auto simp add: maskSSN_def slice_last_def min_def)

theorem maskSSN_legacy_witness:
  "maskSSN sample_D (js ''123456789'') = Inr (js ''***-**-6789'')
   \<and> maskSSN sample_D (js ''123'') = Inr (js ''***-**-123'')"
proof -
  have "colon \<notin> set (js ''123456789'')" "colon \<notin> set (js ''123'')"
    by (simp_all add: js_def jc_def colon_def)
  then show ?thesis
    using maskSSN_legacy [of "js ''123456789''" sample_D] maskSSN_legacy [of "js ''123''" sample_D]
    by (simp add: js_def)
qed

subsection \<open>What decryption rejects\<close>

lemma split_on_second:
  assumes "colon \<notin> set a" "colon \<notin> set b"
  shows "split_on colon (a @ colon # b) = [a, b]"
    and "split_on colon (a @ colon # b @ colon # r) = a # b # split_on colon r"
  using assms by (simp_all add: split_on_first split_on_no_sep)

lemma decryptSSN_no_separator: "colon \<notin> set s \<Longrightarrow> isl (decryptSSN D s)"
  by (simp add: decryptSSN_def decryptSSN_bytes_def split_on_no_sep decipher_bytes_def Let_def)

lemma decryptSSN_ignores_rest:
  assumes "colon \<notin> set a" "colon \<notin> set b"
  shows "decryptSSN D (a @ colon # b @ colon # r) = decryptSSN D (a @ colon # b)"
  using assms by (simp add: decryptSSN_def decryptSSN_bytes_def split_on_second Let_def)

subsection \<open>How the two parts are read\<close>

lemma hex_value_low:
  "hex_value c =
     (let x = low_byte c in
      if 48 \<le> x \<and> x \<le> 57 then Some (x - 48)
      else if 97 \<le> x \<and> x \<le> 102 then Some (x - 87)
      else if 65 \<le> x \<and> x \<le> 70 then Some (x - 55)
      else None)"
  by (simp add: hex_value_def Let_def word_le_nat_alt unat_low_byte low_byte_def)

lemma hex_value_None: "hex_value c = None \<longleftrightarrow> \<not> hex_char c"
  by (auto simp add: hex_value_low hex_char_def Let_def)

lemma hex_value_less: "hex_value c = Some h \<Longrightarrow> h < 16"
  by (auto simp add: hex_value_low Let_def split: if_splits)

lemma hex_value_reads: "reads_as x y \<Longrightarrow> hex_value x = hex_value y"
  unfolding reads_as_def hex_value_low Let_def fold_case_def
  by (auto split: if_splits)

lemma reads_as_refl: "reads_as x x"
  by (simp add: reads_as_def)

lemma low_byte_hex_digit: "n < 16 \<Longrightarrow> low_byte (hex_digit n) = (if n < 10 then 48 + n else 87 + n)"
  by (simp add: low_byte_def unat_hex_digit)

lemma reads_as_hex_digit:
  assumes "hex_value x = Some h" "x \<noteq> colon"
  shows "reads_as x (hex_digit h)"
proof -
  have h: "h < 16" using assms(1) by (rule hex_value_less)
  have "fold_case (low_byte x) = fold_case (low_byte (hex_digit h))"
    using assms(1) h unfolding low_byte_hex_digit [OF h] hex_value_low Let_def fold_case_def
    by (auto split: if_splits)
  then show ?thesis using assms(2) hex_digit_not_colon [OF h] by (simp add: reads_as_def)
qed

lemma from_hex_junk: "\<not> starts_hex_pair j \<Longrightarrow> from_hex j = []"
  by (cases j rule: from_hex.cases)
     (auto simp add: starts_hex_pair_def hex_value_None [symmetric] split: option.splits)

lemma from_hex_to_hex_append: "from_hex (to_hex bs @ j) = bs @ from_hex j"
  by (induction bs) (simp_all add: to_hex_Nil to_hex_Cons hex_value_hex_digit byte_nibbles)

lemma from_hex_reads: "list_all2 reads_as a' a \<Longrightarrow> from_hex a' = from_hex a"
proof (induction a' arbitrary: a rule: from_hex.induct)
  case (1 x y rest)
  then obtain u v r where a: "a = u # v # r" and r: "reads_as x u" "reads_as y v" "list_all2 reads_as rest r"
    by (auto simp add: list_all2_Cons1)
  have hv: "hex_value x = hex_value u" "hex_value y = hex_value v"
    using r(1,2) by (simp_all add: hex_value_reads)
  show ?case
  proof (cases "hex_value u")
    case None
    then show ?thesis using hv by (simp add: a)
  next
    case (Some h)
    show ?thesis
    proof (cases "hex_value v")
      case None
      then show ?thesis using hv Some by (simp add: a)
    next
      case (Some l)
      have "from_hex rest = from_hex r"
        using "1.IH" [of h l r] hv \<open>hex_value u = Some h\<close> Some r(3) by simp
      then show ?thesis using hv \<open>hex_value u = Some h\<close> Some by (simp add: a)
    qed
  qed
next
  case (2 x)
  then obtain u where "a = [u]" by (auto simp add: list_all2_Cons1)
  then show ?case by simp
next
  case 3
  then show ?case by simp
qed

lemma split_on_reads:
  "list_all2 reads_as s' s \<Longrightarrow> list_all2 (list_all2 reads_as) (split_on colon s') (split_on colon s)"
proof (induction rule: list_all2_induct)
  case Nil
  then show ?case by simp
next
  case (Cons x xs y ys)
  obtain p ps where p: "split_on colon xs = p # ps" using split_on_not_Nil [of colon xs] by (cases "split_on colon xs") auto
  obtain q qs where q: "split_on colon ys = q # qs" using split_on_not_Nil [of colon ys] by (cases "split_on colon ys") auto
  have c: "(x = colon) = (y = colon)" using Cons.hyps(1) by (simp add: reads_as_def)
  show ?case using Cons.IH Cons.hyps(1) c by (simp add: p q)
qed

lemma decipher_bytes_reads:
  assumes "list_all2 reads_as b' b"
  shows "decipher_bytes D iv (Some b') = decipher_bytes D iv (Some b)"
  using from_hex_reads [OF assms] list_all2_lengthD [OF assms]
  by (simp add: decipher_bytes_def)

lemma decryptSSN_reads:
  assumes "list_all2 reads_as s' s"
  shows "decryptSSN D s' = decryptSSN D s"
proof -
  obtain p ps where p: "split_on colon s' = p # ps" using split_on_not_Nil [of colon s'] by (cases "split_on colon s'") auto
  obtain q qs where q: "split_on colon s = q # qs" using split_on_not_Nil [of colon s] by (cases "split_on colon s") auto
  have r: "list_all2 reads_as p q" "list_all2 (list_all2 reads_as) ps qs"
    using split_on_reads [OF assms] by (simp_all add: p q)
  have iv: "from_hex p = from_hex q" using r(1) by (rule from_hex_reads)
  have "decryptSSN_bytes D s' = decryptSSN_bytes D s"
  proof (cases ps)
    case Nil
    then have "qs = []" using r(2) by simp
    then show ?thesis using Nil by (simp add: decryptSSN_bytes_def p q iv)
  next
    case (Cons b' t')
    then obtain b t where qs: "qs = b # t" and rb: "list_all2 reads_as b' b"
      using r(2) by (auto simp add: list_all2_Cons1)
    show ?thesis using Cons qs decipher_bytes_reads [OF rb] by (simp add: decryptSSN_bytes_def p q iv)
  qed
  then show ?thesis by (simp add: decryptSSN_def)
qed

lemma stored_shape:
  "colon \<notin> set a \<Longrightarrow> \<exists>bs j. list_all2 reads_as a (to_hex bs @ j) \<and> colon \<notin> set j \<and> \<not> starts_hex_pair j"
proof (induction a rule: from_hex.induct)
  case (1 x y rest)
  show ?case
  proof (cases "hex_char x \<and> hex_char y")
    case False
    have "list_all2 reads_as (x # y # rest) (to_hex [] @ x # y # rest)"
      by (simp add: to_hex_Nil list_all2_refl reads_as_refl)
    moreover have "\<not> starts_hex_pair (x # y # rest)" using False by (simp add: starts_hex_pair_def)
    ultimately show ?thesis using "1.prems" by blast
  next
    case True
    then obtain h l where hl: "hex_value x = Some h" "hex_value y = Some l"
      using hex_value_None [of x] hex_value_None [of y] by auto
    have lt: "h < 16" "l < 16" using hl by (simp_all add: hex_value_less)
    from "1.prems" have nc: "x \<noteq> colon" "y \<noteq> colon" "colon \<notin> set rest" by auto
    obtain bs j where ih: "list_all2 reads_as rest (to_hex bs @ j)" "colon \<notin> set j" "\<not> starts_hex_pair j"
      using "1.IH" [OF hl nc(3)] by blast
    define b where "b = (of_nat (16 * h + l) :: byte)"
    have ub: "unat b = 16 * h + l" unfolding b_def using lt by (intro unat_byte_of_nat) simp
    have nib: "unat b div 16 = h" "unat b mod 16 = l" using lt by (simp_all add: ub)
    have "list_all2 reads_as (x # y # rest) (to_hex (b # bs) @ j)"
      using ih(1) reads_as_hex_digit [OF hl(1) nc(1)] reads_as_hex_digit [OF hl(2) nc(2)]
      by (simp add: to_hex_Cons nib)
    then show ?thesis using ih(2,3) by blast
  qed
next
  case (2 x)
  have "list_all2 reads_as [x] (to_hex [] @ [x])" by (simp add: to_hex_Nil reads_as_refl)
  moreover have "\<not> starts_hex_pair [x]" by (simp add: starts_hex_pair_def)
  ultimately show ?case using 2 by blast
next
  case 3
  have "list_all2 reads_as [] (to_hex [] @ [])" by (simp add: to_hex_Nil)
  moreover have "\<not> starts_hex_pair []" by (simp add: starts_hex_pair_def)
  ultimately show ?case by (metis empty_iff empty_set)
qed

lemma decryptSSN_stored:
  assumes "colon \<notin> set j1" "colon \<notin> set j2" "\<not> starts_hex_pair j1" "\<not> starts_hex_pair j2"
  shows "decryptSSN D (to_hex iv @ j1 @ colon # to_hex ct @ j2) =
      (if length iv \<noteq> 16 then Inl ERR_CRYPTO_INVALID_IV
       else if odd (length j2) then Inl ERR_INVALID_ARG_VALUE
       else if ct = [] \<or> length ct mod 16 \<noteq> 0 then Inl WRONG_FINAL_BLOCK_LENGTH
       else case pkcs7_unpad (cbc_decrypt D iv ct) of
              None \<Rightarrow> Inl BAD_DECRYPT
            | Some m \<Rightarrow> Inr (utf8_decode m))"
proof -
  have a: "colon \<notin> set (to_hex iv @ j1)" and b: "colon \<notin> set (to_hex ct @ j2)"
    using assms(1,2) by (simp_all add: colon_notin_to_hex)
  have fa: "from_hex (to_hex iv @ j1) = iv" and fb: "from_hex (to_hex ct @ j2) = ct"
    using assms(3,4) by (simp_all add: from_hex_to_hex_append from_hex_junk)
  have s: "split_on colon ((to_hex iv @ j1) @ colon # to_hex ct @ j2) = [to_hex iv @ j1, to_hex ct @ j2]"
    using a b by (rule split_on_second(1))
  show ?thesis
    using s fa fb
    by (simp add: decryptSSN_def decryptSSN_bytes_def decipher_bytes_def Let_def length_to_hex
        split: option.splits)
qed

text \<open>
  C2, as the code has it. \<open>decryptSSN\<close> splits its argument at every colon and reads the
  first two parts as hexadecimal: the initialization vector and the ciphertext. A string
  without a colon is an error. A string with one colon whose parts are the hexadecimal
  forms of the bytes \<open>iv\<close> and \<open>ct\<close>, each followed by characters \<open>j1\<close>, \<open>j2\<close> that do not
  start with a hexadecimal pair (and so are not read), fails when \<open>iv\<close> is not 16 bytes; when
  the second part has an odd number of characters; when \<open>ct\<close> is empty or not whole 16-byte
  blocks; and when the decrypted last block does not end in valid padding. In every other
  case the result is the decoded bytes that precede the padding: nothing else is checked.
  The reading is by the low byte of each character and ignores the case of the letters:
  strings whose characters are read alike give the same result, and every string without a
  colon is read like such a hexadecimal form followed by unread characters. What follows a
  second colon is ignored.
\<close>

theorem decryptSSN_outcomes:
  "(colon \<notin> set s \<longrightarrow> isl (decryptSSN D s))
   \<and> (colon \<notin> set j1 \<and> colon \<notin> set j2 \<and> \<not> starts_hex_pair j1 \<and> \<not> starts_hex_pair j2 \<longrightarrow>
        decryptSSN D (to_hex iv @ j1 @ colon # to_hex ct @ j2) =
          (if length iv \<noteq> 16 then Inl ERR_CRYPTO_INVALID_IV
           else if odd (length j2) then Inl ERR_INVALID_ARG_VALUE
           else if ct = [] \<or> length ct mod 16 \<noteq> 0 then Inl WRONG_FINAL_BLOCK_LENGTH
           else case pkcs7_unpad (cbc_decrypt D iv ct) of
                  None \<Rightarrow> Inl BAD_DECRYPT
                | Some m \<Rightarrow> Inr (utf8_decode m)))
   \<and> (list_all2 reads_as s' s \<longrightarrow> decryptSSN D s' = decryptSSN D s)
   \<and> (colon \<notin> set a \<longrightarrow>
        (\<exists>bs j. list_all2 reads_as a (to_hex bs @ j) \<and> colon \<notin> set j \<and> \<not> starts_hex_pair j))
   \<and> (colon \<notin> set a \<and> colon \<notin> set b \<longrightarrow>
        decryptSSN D (a @ colon # b @ colon # r) = decryptSSN D (a @ colon # b))"
  using decryptSSN_no_separator [of s D] decryptSSN_stored [of j1 j2 D iv ct]
    decryptSSN_reads [of s' s D] stored_shape [of a] decryptSSN_ignores_rest [of a b D r]
  by blast

theorem decryptSSN_outcomes_witness:
  "isl (decryptSSN sample_D (js ''123456789''))
   \<and> decryptSSN sample_D (js ''0011223344556677:35261708f9eadbee8c8ea0ae444e606e'')
       = Inl ERR_CRYPTO_INVALID_IV
   \<and> decryptSSN sample_D (js ''00112233445566778899aabbccddeeff:35261708f9eadbee8c8ea0ae444e606'')
       = Inl ERR_INVALID_ARG_VALUE
   \<and> decryptSSN sample_D (js ''00112233445566778899aabbccddeeff:35261708f9eadbee8c8ea0ae444e60'')
       = Inl WRONG_FINAL_BLOCK_LENGTH
   \<and> decryptSSN sample_D (js ''00112233445566778899aabbccddeeff:36261708f9eadbee8c8ea0ae444e606e'')
       = Inl BAD_DECRYPT
   \<and> decryptSSN sample_D (js ''00112233445566778899aabbccddeeff:35261708f9eadbee8c8ea0ae444e606e'')
       = Inr (js ''123456789'')
   \<and> decryptSSN sample_D (js ''00112233445566778899aabbccddeeff:35261708f9eadbee8c8ea0ae444e606ezz'')
       = Inr (js ''123456789'')
   \<and> decryptSSN sample_D (js ''00112233445566778899AABBCCDDEEFF:35261708F9EADBEE8C8EA0AE444E606E'')
       = Inr (js ''123456789'')
   \<and> decryptSSN sample_D
        (0x0130 # js ''0112233445566778899aabbccddeeff:35261708f9eadbee8c8ea0ae444e606e'')
       = Inr (js ''123456789'')
   \<and> decryptSSN sample_D
        (js ''00112233445566778899aabbccddeeff:35261708f9eadbee8c8ea0ae444e606e'' @ [0x0130, 0x0131])
       = Inl WRONG_FINAL_BLOCK_LENGTH
   \<and> (\<exists>bs j. list_all2 reads_as (js ''0Ag'') (to_hex bs @ j) \<and> colon \<notin> set j \<and> \<not> starts_hex_pair j)
   \<and> decryptSSN sample_D (js ''00112233445566778899aabbccddeeff:35261708f9eadbee8c8ea0ae444e606e:zz'')
       = decryptSSN sample_D (js ''00112233445566778899aabbccddeeff:35261708f9eadbee8c8ea0ae444e606e'')"
proof -
  define iv8 :: "byte list" where "iv8 = [0x00, 0x11, 0x22, 0x33, 0x44, 0x55, 0x66, 0x77]"
  define ct :: "byte list" where "ct = [0x35, 0x26, 0x17, 0x08, 0xF9, 0xEA, 0xDB, 0xEE, 0x8C, 0x8E, 0xA0, 0xAE, 0x44, 0x4E, 0x60, 0x6E]"
  define ct15 :: "byte list" where "ct15 = [0x35, 0x26, 0x17, 0x08, 0xF9, 0xEA, 0xDB, 0xEE, 0x8C, 0x8E, 0xA0, 0xAE, 0x44, 0x4E, 0x60]"
  define ct_bad :: "byte list" where "ct_bad = [0x36, 0x26, 0x17, 0x08, 0xF9, 0xEA, 0xDB, 0xEE, 0x8C, 0x8E, 0xA0, 0xAE, 0x44, 0x4E, 0x60, 0x6E]"
  define ct17 :: "byte list" where "ct17 = [0x35, 0x26, 0x17, 0x08, 0xF9, 0xEA, 0xDB, 0xEE, 0x8C, 0x8E, 0xA0, 0xAE, 0x44, 0x4E, 0x60, 0x6E, 0x01]"
  define good where "good = js ''00112233445566778899aabbccddeeff:35261708f9eadbee8c8ea0ae444e606e''"
  note t = decryptSSN_outcomes [where D = sample_D]
  have hx: "to_hex iv8 = js ''0011223344556677''"
    "to_hex sample_iv = js ''00112233445566778899aabbccddeeff''"
    "to_hex ct = js ''35261708f9eadbee8c8ea0ae444e606e''"
    "to_hex ct15 = js ''35261708f9eadbee8c8ea0ae444e60''"
    "to_hex ct_bad = js ''36261708f9eadbee8c8ea0ae444e606e''"
    "to_hex ct17 = js ''35261708f9eadbee8c8ea0ae444e606e01''"
    by (simp_all add: iv8_def ct_def ct15_def ct_bad_def ct17_def sample_iv_def to_hex_def hex_digit_def js_def jc_def)
  have j: "colon \<notin> set []" "\<not> starts_hex_pair []" "colon \<notin> set (js ''6'')" "\<not> starts_hex_pair (js ''6'')"
    "colon \<notin> set (js ''zz'')" "\<not> starts_hex_pair (js ''zz'')"
    by (simp_all add: starts_hex_pair_def hex_char_def low_byte_def colon_def js_def jc_def)
  have l: "length iv8 \<noteq> 16" "length sample_iv = 16" "length ct15 mod 16 \<noteq> 0" "length ct17 mod 16 \<noteq> 0"
    "ct \<noteq> []" "length ct mod 16 = 0" "ct_bad \<noteq> []" "length ct_bad mod 16 = 0"
    "\<not> odd (length (js ''zz''))" "odd (length (js ''6''))"
    by (simp_all add: iv8_def ct_def ct15_def ct_bad_def ct17_def sample_iv_def js_def)
  have d: "pkcs7_unpad (cbc_decrypt sample_D sample_iv ct_bad) = None"
    "pkcs7_unpad (cbc_decrypt sample_D sample_iv ct) = Some (utf8_encode (js ''123456789''))"
    by (simp_all add: ct_bad_def ct_def crypto_eval)
  have u: "utf8_decode (utf8_encode (js ''123456789'')) = js ''123456789''"
    by (simp add: crypto_eval utf8_dec.simps)
  have c1: "isl (decryptSSN sample_D (js ''123456789''))"
    using t [where s = "js ''123456789''"] by (simp add: colon_def js_def jc_def)
  have c2: "decryptSSN sample_D (to_hex iv8 @ [] @ colon # to_hex ct @ []) = Inl ERR_CRYPTO_INVALID_IV"
    using t [where iv = iv8 and ct = ct and ?j1.0 = "[]" and ?j2.0 = "[]"] j(1,2) l(1) by simp
  have c3: "decryptSSN sample_D (to_hex sample_iv @ [] @ colon # to_hex ct15 @ js ''6'') = Inl ERR_INVALID_ARG_VALUE"
    using t [where iv = sample_iv and ct = ct15 and ?j1.0 = "[]" and ?j2.0 = "js ''6''"] j(1-4) l(2,10) by simp
  have c4: "decryptSSN sample_D (to_hex sample_iv @ [] @ colon # to_hex ct15 @ []) = Inl WRONG_FINAL_BLOCK_LENGTH"
    using t [where iv = sample_iv and ct = ct15 and ?j1.0 = "[]" and ?j2.0 = "[]"] j(1,2) l(2,3) by simp
  have c5: "decryptSSN sample_D (to_hex sample_iv @ [] @ colon # to_hex ct_bad @ []) = Inl BAD_DECRYPT"
    using t [where iv = sample_iv and ct = ct_bad and ?j1.0 = "[]" and ?j2.0 = "[]"] j(1,2) l(2,7,8) d(1) by simp
  have c6: "decryptSSN sample_D (to_hex sample_iv @ [] @ colon # to_hex ct @ []) = Inr (js ''123456789'')"
    using t [where iv = sample_iv and ct = ct and ?j1.0 = "[]" and ?j2.0 = "[]"] j(1,2) l(2,5,6) d(2) u by simp
  have c7: "decryptSSN sample_D (to_hex sample_iv @ [] @ colon # to_hex ct @ js ''zz'') = Inr (js ''123456789'')"
    using t [where iv = sample_iv and ct = ct and ?j1.0 = "[]" and ?j2.0 = "js ''zz''"] j(1,2,5,6) l(2,5,6,9) d(2) u
    by simp
  have c10a: "decryptSSN sample_D (to_hex sample_iv @ [] @ colon # to_hex ct17 @ []) = Inl WRONG_FINAL_BLOCK_LENGTH"
    using t [where iv = sample_iv and ct = ct17 and ?j1.0 = "[]" and ?j2.0 = "[]"] j(1,2) l(2,4) by simp
  have g: "to_hex sample_iv @ [] @ colon # to_hex ct @ [] = good"
    by (simp add: hx good_def js_def colon_def)
  have c6g: "decryptSSN sample_D good = Inr (js ''123456789'')"
    using c6 unfolding g .
  have r8: "list_all2 reads_as (js ''00112233445566778899AABBCCDDEEFF:35261708F9EADBEE8C8EA0AE444E606E'') good"
    and r9: "list_all2 reads_as (0x0130 # js ''0112233445566778899aabbccddeeff:35261708f9eadbee8c8ea0ae444e606e'') good"
    and r10: "list_all2 reads_as (good @ [0x0130, 0x0131]) (to_hex sample_iv @ [] @ colon # to_hex ct17 @ [])"
    by (simp_all add: hx good_def reads_as_def fold_case_def low_byte_def colon_def js_def jc_def)
  have c8: "decryptSSN sample_D (js ''00112233445566778899AABBCCDDEEFF:35261708F9EADBEE8C8EA0AE444E606E'')
      = Inr (js ''123456789'')"
    using t [where s' = "js ''00112233445566778899AABBCCDDEEFF:35261708F9EADBEE8C8EA0AE444E606E''" and s = good]
      r8 c6g by simp
  have c9: "decryptSSN sample_D (0x0130 # js ''0112233445566778899aabbccddeeff:35261708f9eadbee8c8ea0ae444e606e'')
      = Inr (js ''123456789'')"
    using t [where s' = "0x0130 # js ''0112233445566778899aabbccddeeff:35261708f9eadbee8c8ea0ae444e606e''" and s = good]
      r9 c6g by simp
  have c10: "decryptSSN sample_D (good @ [0x0130, 0x0131]) = Inl WRONG_FINAL_BLOCK_LENGTH"
    using t [where s' = "good @ [0x0130, 0x0131]" and s = "to_hex sample_iv @ [] @ colon # to_hex ct17 @ []"]
      r10 c10a by simp
  have c11: "\<exists>bs j. list_all2 reads_as (js ''0Ag'') (to_hex bs @ j) \<and> colon \<notin> set j \<and> \<not> starts_hex_pair j"
    using t [where a = "js ''0Ag''"] by (simp add: colon_def js_def jc_def)
  have nc: "colon \<notin> set (js ''00112233445566778899aabbccddeeff'')"
    "colon \<notin> set (js ''35261708f9eadbee8c8ea0ae444e606e'')"
    by (simp_all add: colon_def js_def jc_def)
  have c12: "decryptSSN sample_D (js ''00112233445566778899aabbccddeeff'' @ colon
                # js ''35261708f9eadbee8c8ea0ae444e606e'' @ colon # js ''zz'')
             = decryptSSN sample_D (js ''00112233445566778899aabbccddeeff'' @ colon
                # js ''35261708f9eadbee8c8ea0ae444e606e'')"
    using t [where a = "js ''00112233445566778899aabbccddeeff''"
        and b = "js ''35261708f9eadbee8c8ea0ae444e606e''" and r = "js ''zz''"] nc by blast
  have e: "js ''0011223344556677:35261708f9eadbee8c8ea0ae444e606e'' = to_hex iv8 @ [] @ colon # to_hex ct @ []"
    "js ''00112233445566778899aabbccddeeff:35261708f9eadbee8c8ea0ae444e606'' = to_hex sample_iv @ [] @ colon # to_hex ct15 @ js ''6''"
    "js ''00112233445566778899aabbccddeeff:35261708f9eadbee8c8ea0ae444e60'' = to_hex sample_iv @ [] @ colon # to_hex ct15 @ []"
    "js ''00112233445566778899aabbccddeeff:36261708f9eadbee8c8ea0ae444e606e'' = to_hex sample_iv @ [] @ colon # to_hex ct_bad @ []"
    "js ''00112233445566778899aabbccddeeff:35261708f9eadbee8c8ea0ae444e606ezz'' = to_hex sample_iv @ [] @ colon # to_hex ct @ js ''zz''"
    "js ''00112233445566778899aabbccddeeff:35261708f9eadbee8c8ea0ae444e606e:zz''
       = js ''00112233445566778899aabbccddeeff'' @ colon # js ''35261708f9eadbee8c8ea0ae444e606e'' @ colon # js ''zz''"
    "js ''00112233445566778899aabbccddeeff:35261708f9eadbee8c8ea0ae444e606e''
       = js ''00112233445566778899aabbccddeeff'' @ colon # js ''35261708f9eadbee8c8ea0ae444e606e''"
    by (simp_all add: hx js_def colon_def)
  show ?thesis
    using c1 c2 c3 c4 c5 c6g c7 c8 c9 c10 c11 c12
    unfolding e [symmetric] good_def by blast
qed

text \<open>
  C2, as the claim states it, fails: a stored value in which one hexadecimal character of
  the ciphertext is replaced (the character at index 34, \<open>6\<close>, by \<open>7\<close>) decrypts without an
  error, to a plaintext that is not the one encrypted.
\<close>

theorem decryptSSN_tamper_accepted:
  "encryptSSN sample_E sample_iv (js ''12345678901234567'')
     = js ''00112233445566778899aabbccddeeff:0618263cc6d8e6ee8c8ea0ae444e606e9eac7e88deecbec01e2614067066546e''
   \<and> (encryptSSN sample_E sample_iv (js ''12345678901234567''))[34 := jc CHR ''7'']
     = js ''00112233445566778899aabbccddeeff:0718263cc6d8e6ee8c8ea0ae444e606e9eac7e88deecbec01e2614067066546e''
   \<and> decryptSSN sample_D
        (js ''00112233445566778899aabbccddeeff:0718263cc6d8e6ee8c8ea0ae444e606e9eac7e88deecbec01e2614067066546e'')
     = Inr (js ''12345678901234556'')"
proof -
  have e: "encryptSSN sample_E sample_iv (js ''12345678901234567'')
     = js ''00112233445566778899aabbccddeeff:0618263cc6d8e6ee8c8ea0ae444e606e9eac7e88deecbec01e2614067066546e''"
    by (simp add: crypto_eval)
  have u: "(js ''00112233445566778899aabbccddeeff:0618263cc6d8e6ee8c8ea0ae444e606e9eac7e88deecbec01e2614067066546e'')[34 := jc CHR ''7'']
     = js ''00112233445566778899aabbccddeeff:0718263cc6d8e6ee8c8ea0ae444e606e9eac7e88deecbec01e2614067066546e''"
    by (simp add: js_def)
  have d: "decryptSSN sample_D
        (js ''00112233445566778899aabbccddeeff:0718263cc6d8e6ee8c8ea0ae444e606e9eac7e88deecbec01e2614067066546e'')
     = Inr (js ''12345678901234556'')"
    by (simp add: crypto_eval utf8_dec.simps)
  show ?thesis using e u d by simp
qed

text \<open>
  The same holds whatever the block transformation is: for every plaintext of 17 to 31
  bytes, the stored value with the character at index 34 replaced by another hexadecimal
  digit decrypts without an error to other bytes. The changed ciphertext byte only changes
  the first byte of the last plaintext block, which the padding check does not read.
\<close>

lemma pkcs7_unpad_append:
  assumes "0 < n" "n \<le> 16"
  shows "pkcs7_unpad (xs @ replicate n (of_nat n)) = Some xs"
proof -
  have u: "unat (of_nat n :: byte) = n" using assms by (simp add: unat_of_nat)
  have l: "last (xs @ replicate n (of_nat n :: byte)) = of_nat n" using assms by simp
  show ?thesis
    unfolding pkcs7_unpad_def Let_def l u using assms by simp
qed

lemma pkcs7_pad_two_blocks:
  assumes "16 < length m" "length m < 32"
  shows "pkcs7_pad m = m @ replicate (32 - length m) (of_nat (32 - length m))"
proof -
  have "length m mod 16 = length m - 16" using assms by (simp add: mod_if)
  then have "16 - length m mod 16 = 32 - length m" using assms by simp
  then show ?thesis by (simp add: pkcs7_pad_def Let_def)
qed

lemma cbc_encrypt_two_blocks:
  assumes "length m = 32"
  shows "cbc_encrypt E iv m
         = E (xor_bytes iv (take 16 m)) @ E (xor_bytes (E (xor_bytes iv (take 16 m))) (drop 16 m))"
proof -
  have 1: "m \<noteq> []" "drop 16 m \<noteq> []" "drop 16 (drop 16 m) = []" using assms by auto
  have t: "take 16 (drop 16 m) = drop 16 m" using assms by simp
  show ?thesis
    using 1 by (simp add: cbc_encrypt.simps [of E iv m] cbc_encrypt.simps [of E _ "drop 16 m"]
        cbc_encrypt_Nil Let_def t)
qed

lemma cbc_decrypt_two_blocks:
  assumes "length c1 = 16" "length c2 = 16"
  shows "cbc_decrypt D iv (c1 @ c2) = xor_bytes iv (D c1) @ xor_bytes c1 (D c2)"
proof -
  have 1: "c1 @ c2 \<noteq> []" "c2 \<noteq> []" using assms by auto
  show ?thesis
    using 1 assms by (simp add: cbc_decrypt.simps [of D iv "c1 @ c2"] cbc_decrypt.simps [of D c1 c2]
        cbc_decrypt_Nil)
qed

lemma hex_digit_inj: "h < 16 \<Longrightarrow> h' < 16 \<Longrightarrow> hex_digit h = hex_digit h' \<Longrightarrow> h = h'"
  by (metis hex_value_hex_digit option.inject)

lemma xor_changed: "(b' :: byte) \<noteq> b \<Longrightarrow> b' XOR (b XOR q) \<noteq> q"
proof
  assume ne: "b' \<noteq> b" and eq: "b' XOR (b XOR q) = q"
  have "b' = (b XOR q) XOR (b' XOR (b XOR q))"
    by (simp add: xor.commute xor.left_commute)
  also have "\<dots> = (b XOR q) XOR q" using eq by simp
  also have "\<dots> = b" by (simp add: xor.commute xor.left_commute)
  finally show False using ne by simp
qed

theorem cbc_tamper_undetected:
  assumes bc: "block_cipher E D" and iv: "length iv = 16"
    and len: "16 < length (utf8_encode P)" "length (utf8_encode P) < 32"
  shows "\<exists>x m'. hex_value x \<noteq> None \<and> x \<noteq> encryptSSN E iv P ! 34
           \<and> decryptSSN_bytes D ((encryptSSN E iv P)[34 := x]) = Inr m' \<and> m' \<noteq> utf8_encode P"
proof -
  define m where "m = utf8_encode P"
  define n where "n = 32 - length m"
  have n: "0 < n" "n \<le> 16" using len by (simp_all add: n_def m_def)
  define pad where "pad = replicate n (of_nat n :: byte)"
  have padded: "pkcs7_pad m = m @ pad"
    using len by (simp add: pkcs7_pad_two_blocks m_def n_def pad_def)
  have lpadded: "length (m @ pad) = 32" using len by (simp add: pad_def n_def m_def)
  define p1 where "p1 = take 16 m"
  obtain q0 mt where dm: "drop 16 m = q0 # mt"
    using len(1) by (cases "drop 16 m") (auto simp add: m_def)
  have msplit: "m = p1 @ q0 # mt" using dm by (metis append_take_drop_id p1_def)
  have lp1: "length p1 = 16" using len(1) by (simp add: p1_def m_def)
  define qt where "qt = mt @ pad"
  have lqt: "length qt = 15" using lpadded msplit lp1 by (simp add: qt_def)
  define c1 where "c1 = E (xor_bytes iv p1)"
  have lc1: "length c1 = 16"
    using bc [unfolded block_cipher_def, rule_format, of "xor_bytes iv p1"] iv lp1
    by (simp add: c1_def length_xor_bytes)
  obtain b0 t where c1: "c1 = b0 # t" using lc1 by (cases c1) auto
  have lt: "length t = 15" using lc1 c1 by simp
  define c2 where "c2 = E (xor_bytes c1 (q0 # qt))"
  have lx2: "length (xor_bytes c1 (q0 # qt)) = 16" using lc1 lqt by (simp add: length_xor_bytes)
  have lc2: "length c2 = 16" and dc2: "D c2 = xor_bytes c1 (q0 # qt)"
    using bc [unfolded block_cipher_def, rule_format, OF lx2] by (simp_all add: c2_def)
  have tk: "take 16 (m @ pad) = p1" "drop 16 (m @ pad) = q0 # qt"
    using lp1 by (simp_all add: msplit qt_def)
  have ct: "cbc_encrypt E iv (pkcs7_pad m) = c1 @ c2"
    unfolding padded cbc_encrypt_two_blocks [OF lpadded] tk c1_def c2_def by simp
  define h where "h = unat b0 div 16"
  define l where "l = unat b0 mod 16"
  define l' where "l' = (l + 1) mod 16"
  define b0' where "b0' = (of_nat (16 * h + l') :: byte)"
  have hl0: "h < 16" "l < 16" using byte_nibbles(1,2) [of b0] by (simp_all add: h_def l_def)
  have hl1: "l' < 16" "l' \<noteq> l" using hl0(2) unfolding l'_def by presburger+
  note hl = hl0 hl1
  have ub0': "unat b0' = 16 * h + l'"
    unfolding b0'_def using hl by (intro unat_byte_of_nat) simp
  have nib: "unat b0' div 16 = h" "unat b0' mod 16 = l'" using hl by (simp_all add: ub0')
  have ne: "b0' \<noteq> b0" using nib(2) hl(4) l_def by auto
  define x where "x = hex_digit l'"
  have stored: "encryptSSN E iv P
                = to_hex iv @ [colon] @ hex_digit h # hex_digit l # to_hex (t @ c2)"
    by (simp add: encryptSSN_def cipher_hex_def js_colon ct [unfolded m_def] c1 to_hex_Cons h_def l_def)
  have liv: "length (to_hex iv) = 32" using iv by (simp add: length_to_hex)
  have at34: "encryptSSN E iv P ! 34 = hex_digit l"
    unfolding stored using liv by (simp add: nth_append)
  have stored': "(encryptSSN E iv P)[34 := x] = to_hex iv @ js '':'' @ to_hex ((b0' # t) @ c2)"
    unfolding stored using liv by (simp add: list_update_append js_colon to_hex_Cons nib x_def)
  have x1: "hex_value x \<noteq> None" using hl by (simp add: x_def hex_value_hex_digit)
  have x2: "x \<noteq> encryptSSN E iv P ! 34"
    unfolding at34 x_def using hex_digit_inj [of l' l] hl by auto
  define g where "g = xor_bytes iv (D (b0' # t))"
  have lg: "length g = 16"
    using bc [unfolded block_cipher_def, rule_format, of "b0' # t"] lt iv
    by (simp add: g_def length_xor_bytes)
  define q0' where "q0' = b0' XOR (b0 XOR q0)"
  have q0': "q0' \<noteq> q0" unfolding q0'_def using ne by (rule xor_changed)
  have tail: "xor_bytes t (xor_bytes t qt) = qt" using lt lqt by (simp add: xor_bytes_cancel)
  have blk2: "xor_bytes (b0' # t) (D c2) = q0' # qt"
    unfolding dc2 c1 using tail by (simp add: xor_bytes_def q0'_def)
  have "length (b0' # t) = 16" using lt by simp
  then have dec: "cbc_decrypt D iv ((b0' # t) @ c2) = g @ q0' # qt"
    unfolding g_def using lc2 blk2 by (simp only: cbc_decrypt_two_blocks)
  have unpad: "pkcs7_unpad (g @ q0' # qt) = Some (g @ q0' # mt)"
    using pkcs7_unpad_append [OF n, of "g @ q0' # mt"] by (simp add: qt_def pad_def)
  have res: "decryptSSN_bytes D ((encryptSSN E iv P)[34 := x]) = Inr (g @ q0' # mt)"
    unfolding stored' decryptSSN_bytes_def split_stored Let_def
    using iv lt lc2 dec [simplified] by (simp add: decipher_bytes_def from_hex_to_hex length_to_hex unpad)
  have "g @ q0' # mt \<noteq> m" unfolding msplit using lg lp1 q0' by simp
  with x1 x2 res show ?thesis unfolding m_def by blast
qed

theorem cbc_tamper_undetected_witness:
  "\<exists>x m'. hex_value x \<noteq> None
      \<and> x \<noteq> encryptSSN sample_E sample_iv (js ''12345678901234567'') ! 34
      \<and> decryptSSN_bytes sample_D ((encryptSSN sample_E sample_iv (js ''12345678901234567''))[34 := x]) = Inr m'
      \<and> m' \<noteq> utf8_encode (js ''12345678901234567'')"
proof -
  have "length sample_iv = 16" by (simp add: sample_iv_def)
  moreover have "length (utf8_encode (js ''12345678901234567'')) = 17"
    by (simp add: js_def jc_def utf8_of_cp_def is_high_surrogate_def is_low_surrogate_def)
  ultimately show ?thesis
    using cbc_tamper_undetected [OF sample_cipher, of sample_iv "js ''12345678901234567''"] by simp
qed

section \<open>Properties of the date-of-birth checks\<close>

lemmas date_eval = dateOfBirth_refine_def minimumAge_def notFuture_def reasonable_def
  num_sub_def num_lt_def num_gt_def num_eq_def calendar_age_def Let_def

text \<open>
  C5, as the code has it, for a birth date and a reference date that are both valid. The
  server's check accepts exactly when the birth date is not after the reference date, the
  calendar age is at least 18 and the difference of the years is at most 120; the form's
  \<open>minimumAge\<close> accepts exactly when the calendar age is at least 18. A birth date after
  the reference date is rejected by both, and by \<open>notFuture\<close>. The birth date 18 years before
  the reference date, same month and day, is accepted by both; the day after it is rejected
  by both.
\<close>

theorem age_check:
  "(dateOfBirth_refine (Date by bm bd bt) (Date ty tm td tt) \<longleftrightarrow>
      \<not> date_gt (Date by bm bd bt) (Date ty tm td tt)
      \<and> 18 \<le> calendar_age by bm bd ty tm td \<and> ty - by \<le> 120)
   \<and> (minimumAge (Date by bm bd bt) (Date ty tm td tt) = Accept \<longleftrightarrow>
      18 \<le> calendar_age by bm bd ty tm td)
   \<and> (date_gt (Date by bm bd bt) (Date ty tm td tt) \<longrightarrow>
        \<not> dateOfBirth_refine (Date by bm bd bt) (Date ty tm td tt)
        \<and> minimumAge (Date by bm bd bt) (Date ty tm td tt) \<noteq> Accept
        \<and> notFuture (Date by bm bd bt) (Date ty tm td tt) \<noteq> Accept)
   \<and> dateOfBirth_refine (Date (ty - 18) tm td bt) (Date ty tm td tt)
   \<and> minimumAge (Date (ty - 18) tm td bt) (Date ty tm td tt) = Accept
   \<and> \<not> dateOfBirth_refine (next_day (Date (ty - 18) tm td bt)) (Date ty tm td tt)
   \<and> minimumAge (next_day (Date (ty - 18) tm td bt)) (Date ty tm td tt) \<noteq> Accept"
  by (auto simp add: date_eval)

theorem age_check_witness:
  "\<not> dateOfBirth_refine (Date 2025 5 16 0) (Date 2025 5 15 43200000)
   \<and> minimumAge (Date 2025 5 16 0) (Date 2025 5 15 43200000) \<noteq> Accept
   \<and> notFuture (Date 2025 5 16 0) (Date 2025 5 15 43200000) \<noteq> Accept"
proof -
  have "date_gt (Date 2025 5 16 0) (Date 2025 5 15 43200000)" by simp
  then show ?thesis using age_check [of 2025 5 16 0 2025 5 15 43200000] by blast
qed

text \<open>
  C5, as the claim states it, fails on the server's check: a birth date in 1900 is not
  after a reference date in 2025 and gives a calendar age above 18, and is rejected.
\<close>

theorem age_check_rejects_over_120:
  "18 \<le> calendar_age 1900 0 1 2025 5 15
   \<and> \<not> date_gt (Date 1900 0 1 0) (Date 2025 5 15 43200000)
   \<and> \<not> dateOfBirth_refine (Date 1900 0 1 0) (Date 2025 5 15 43200000)"
  by (simp add: date_eval)

text \<open>
  C4, at a birth date that cannot be parsed. \<open>new Date\<close> then gives \<open>Invalid Date\<close>, every
  number computed from it is \<open>NaN\<close>, no comparison holds, and the server's check and the
  three validators of the form all accept, whatever the reference date is.
\<close>

theorem dateOfBirth_refine_accepts_invalid:
  "dateOfBirth_refine InvalidDate today
   \<and> notFuture InvalidDate today = Accept
   \<and> minimumAge InvalidDate today = Accept
   \<and> reasonable InvalidDate today = Accept"
  by (cases today) (simp_all add: date_eval)

text \<open>The three validators of the form together decide what the server's check decides.\<close>

theorem form_validators_agree_with_server:
  "(notFuture d today = Accept \<and> minimumAge d today = Accept \<and> reasonable d today = Accept)
   \<longleftrightarrow> dateOfBirth_refine d today"
  by (cases d; cases today) (auto simp add: date_eval)

section \<open>Definite results of the validators of FundingModal.tsx\<close>

text \<open>
  Each validator returns acceptance or one of its messages for every input, and the message
  tells a failure of the form of the input (after the card validator has removed white
  space and hyphens) from a failure of the checksum.
\<close>

theorem validators_definite:
  "(validFormat Card v = Reject ''Card number must be 13-19 digits''
      \<longleftrightarrow> \<not> digits_between 13 19 (strip_separators v))
   \<and> (validFormat Card v = Reject ''Invalid card number''
      \<longleftrightarrow> digits_between 13 19 (strip_separators v) \<and> luhn_sum_spec (strip_separators v) mod 10 \<noteq> 0)
   \<and> (validFormat Card v = Accept
      \<longleftrightarrow> digits_between 13 19 (strip_separators v) \<and> luhn_sum_spec (strip_separators v) mod 10 = 0)
   \<and> (validFormat Bank v = Accept \<longleftrightarrow> digits_between 4 17 v)
   \<and> (validFormat Bank v = Reject ''Account number must be 4-17 digits'' \<longleftrightarrow> \<not> digits_between 4 17 v)
   \<and> (validRoutingNumber Bank r = Reject ''Routing number is required for bank transfers''
      \<longleftrightarrow> r = None \<or> r = Some [])
   \<and> (validRoutingNumber Bank (Some w) = Reject ''Routing number must be exactly 9 digits''
      \<longleftrightarrow> w \<noteq> [] \<and> \<not> digits_between 9 9 w)
   \<and> (validRoutingNumber Bank (Some w) = Reject ''Invalid routing number''
      \<longleftrightarrow> digits_between 9 9 w \<and> validRoutingNumber Bank (Some w) \<noteq> Accept)
   \<and> validFormat Card [] = Reject ''Card number must be 13-19 digits''
   \<and> validRoutingNumber Bank (Some []) = Reject ''Routing number is required for bank transfers''"
proof -
  have card: "(validFormat Card v = Reject ''Card number must be 13-19 digits''
      \<longleftrightarrow> \<not> digits_between 13 19 (strip_separators v))
   \<and> (validFormat Card v = Reject ''Invalid card number''
      \<longleftrightarrow> digits_between 13 19 (strip_separators v) \<and> luhn_sum_spec (strip_separators v) mod 10 \<noteq> 0)
   \<and> (validFormat Card v = Accept
      \<longleftrightarrow> digits_between 13 19 (strip_separators v) \<and> luhn_sum_spec (strip_separators v) mod 10 = 0)"
    by (simp add: validFormat_def Let_def luhn_loop_spec)
  have account: "(validFormat Bank v = Accept \<longleftrightarrow> digits_between 4 17 v)
   \<and> (validFormat Bank v = Reject ''Account number must be 4-17 digits'' \<longleftrightarrow> \<not> digits_between 4 17 v)"
    by (simp add: validFormat_def)
  have required: "validRoutingNumber Bank r = Reject ''Routing number is required for bank transfers''
      \<longleftrightarrow> r = None \<or> r = Some []"
    by (cases r) (simp_all add: validRoutingNumber_def Let_def)
  have routing: "(validRoutingNumber Bank (Some w) = Reject ''Routing number must be exactly 9 digits''
      \<longleftrightarrow> w \<noteq> [] \<and> \<not> digits_between 9 9 w)
   \<and> (validRoutingNumber Bank (Some w) = Reject ''Invalid routing number''
      \<longleftrightarrow> digits_between 9 9 w \<and> validRoutingNumber Bank (Some w) \<noteq> Accept)"
    by (cases "w = []") (simp_all add: validRoutingNumber_def Let_def digits_between_def)
  have empty: "validFormat Card [] = Reject ''Card number must be 13-19 digits''"
    "validRoutingNumber Bank (Some []) = Reject ''Routing number is required for bank transfers''"
    by (simp_all add: validFormat_def validRoutingNumber_def strip_separators_def digits_between_def)
  show ?thesis
    by (intro conjI card [THEN conjunct1] card [THEN conjunct2, THEN conjunct1]
        card [THEN conjunct2, THEN conjunct2] account [THEN conjunct1] account [THEN conjunct2]
        required routing [THEN conjunct1] routing [THEN conjunct2] empty)
qed

end
